theory Spec2Isabelle
  imports Main "HOL-Library.Word"
begin

section \<open>Data model (message_bus.h, data_store.h)\<close>

text \<open>
  Topics, subscription ids and tick counts are \<^verbatim>\<open>uint32_t\<close>: 32-bit words, on which
  \<open>+\<close> and \<open>-\<close> wrap around and \<open><\<close> is the unsigned order. Sizes (\<^verbatim>\<open>size_t\<close>) are
  natural numbers. A pointer to bytes handed in by a caller is a \<open>u8 list option\<close>:
  \<open>None\<close> is \<^verbatim>\<open>nullptr\<close>, \<open>Some buf\<close> points to memory holding \<open>buf\<close>; reading
  \<open>n\<close> bytes through it yields \<open>take n buf\<close> (a well-formed call has \<open>n \<le> length buf\<close>).
\<close>

type_synonym u8 = "8 word"
type_synonym u32 = "32 word"

datatype DeliveryMode = Immediate | LvglAsync

text \<open>
  A \<^verbatim>\<open>std::function\<close> target. \<open>UserFn n\<close> is the application's closure number \<open>n\<close>;
  \<open>KeyWatcher key n\<close> is the lambda \<^verbatim>\<open>[key, cb](const Message&) { cb(key); }\<close> that
  \<^verbatim>\<open>DataStore::Watch\<close> builds around the key callback \<open>n\<close>. A \<^verbatim>\<open>MessageCallback\<close>
  may be empty (\<open>None\<close>).
\<close>

datatype closure = UserFn nat | KeyWatcher u32 nat

type_synonym MessageCallback = "closure option"

text \<open>
  What \<^verbatim>\<open>Message::data\<close> points to: nothing, the given bytes, or a freshly allocated
  block whose trailing bytes were never written.
\<close>

datatype payload_ptr = Nullptr | Bytes "u8 list" | Unwritten

record Message =
  msg_topic :: u32
  msg_data :: payload_ptr
  msg_data_size :: nat
  msg_timestamp :: u32

definition kInvalidSubscription :: u32 where
  "kInvalidSubscription = 0"

record BusConfig =
  max_subscribers :: nat
  max_data_size :: nat

text \<open>
  \<^verbatim>\<open>SubscriberEntry\<close>, with the six members that \<^verbatim>\<open>MessageBus::Subscribe\<close>
  aggregate-initialises and \<^verbatim>\<open>MessageBus::Publish\<close> reads and writes in message_bus.cc
  (\<^verbatim>\<open>{id, topic, std::move(cb), mode, interval_ticks, 0}\<close>).
\<close>

record SubscriberEntry =
  sub_id :: u32
  sub_topic :: u32
  sub_callback :: MessageCallback
  sub_mode :: DeliveryMode
  min_interval_ticks :: u32
  last_delivery_tick :: u32

text \<open>
  \<^verbatim>\<open>AsyncPayload\<close>: the header of the block queued for \<^verbatim>\<open>lv_async_call\<close>, and
  \<open>pl_bytes\<close>, what \<^verbatim>\<open>DataPtr()\<close> points to (the \<open>data_size\<close> bytes behind the header).
\<close>

record AsyncPayload =
  pl_callback :: MessageCallback
  pl_topic :: u32
  pl_timestamp :: u32
  pl_data_size :: nat
  pl_bytes :: payload_ptr

text \<open>The members of \<^verbatim>\<open>MessageBus\<close>; the mutex handle is represented by the outcome of
  each \<^verbatim>\<open>xSemaphoreTake\<close>, an argument of the operations below.\<close>

record MessageBus =
  bus_initialized :: bool
  bus_config :: BusConfig
  subscribers :: "SubscriberEntry list"
  next_id :: u32

record DataStoreConfig =
  max_entry_size :: nat

record DataStore =
  ds_initialized :: bool
  ds_config :: DataStoreConfig
  topic_base :: u32
  entries :: "u32 \<rightharpoonup> u8 list"

datatype esp_err = ESP_OK | ESP_ERR_INVALID_STATE | ESP_ERR_NO_MEM

text \<open>The default member initialisers of the two singletons.\<close>

definition default_BusConfig :: BusConfig where
  "default_BusConfig = \<lparr>max_subscribers = 32, max_data_size = 512\<rparr>"

definition new_MessageBus :: MessageBus where
  "new_MessageBus =
     \<lparr>bus_initialized = False, bus_config = default_BusConfig, subscribers = [], next_id = 1\<rparr>"

definition default_DataStoreConfig :: DataStoreConfig where
  "default_DataStoreConfig = \<lparr>max_entry_size = 256\<rparr>"

definition kDefaultTopicBase :: u32 where
  "kDefaultTopicBase = 0x8000"

definition new_DataStore :: DataStore where
  "new_DataStore =
     \<lparr>ds_initialized = False, ds_config = default_DataStoreConfig,
      topic_base = kDefaultTopicBase, entries = Map.empty\<rparr>"

section \<open>MessageBus (message_bus.cc)\<close>

text \<open>
  Every operation takes what the environment decides as arguments: \<open>took\<close> says whether
  \<^verbatim>\<open>xSemaphoreTake(mutex_, pdMS_TO_TICKS(1000))\<close> returned \<^verbatim>\<open>pdTRUE\<close>, \<open>now\<close> is
  the value of \<^verbatim>\<open>xTaskGetTickCount()\<close>, \<open>malloc_ok k\<close> says whether the \<open>k\<close>-th
  \<^verbatim>\<open>malloc\<close> of the call succeeded, and \<open>ms_to_ticks\<close> is FreeRTOS's
  \<^verbatim>\<open>pdMS_TO_TICKS\<close>. Log output is not modelled.
\<close>

definition Initialize :: "bool \<Rightarrow> MessageBus \<Rightarrow> BusConfig \<Rightarrow> esp_err \<times> MessageBus" where
  "Initialize mutex_created bus config =
     (if bus_initialized bus then (ESP_ERR_INVALID_STATE, bus)
      else if \<not> mutex_created then (ESP_ERR_NO_MEM, bus\<lparr>bus_config := config\<rparr>)
      else (ESP_OK, bus\<lparr>bus_config := config, bus_initialized := True\<rparr>))"

definition Subscribe ::
  "(u32 \<Rightarrow> u32) \<Rightarrow> bool \<Rightarrow> MessageBus \<Rightarrow> u32 \<Rightarrow> MessageCallback \<Rightarrow> DeliveryMode \<Rightarrow> u32
     \<Rightarrow> u32 \<times> MessageBus" where
  "Subscribe ms_to_ticks took bus topic cb mode min_interval_ms =
     (if \<not> bus_initialized bus \<or> cb = None then (kInvalidSubscription, bus)
      else if \<not> took then (kInvalidSubscription, bus)
      else
        let ident = next_id bus;
            incremented = next_id bus + 1;
            next = (if incremented = kInvalidSubscription then 1 else incremented);
            interval_ticks = (if min_interval_ms > 0 then ms_to_ticks min_interval_ms else 0)
        in (ident,
            bus\<lparr>next_id := next,
                subscribers := subscribers bus @
                  [\<lparr>sub_id = ident, sub_topic = topic, sub_callback = cb, sub_mode = mode,
                    min_interval_ticks = interval_ticks, last_delivery_tick = 0\<rparr>]\<rparr>))"

text \<open>The loop of \<^verbatim>\<open>Unsubscribe\<close>: erase the first entry with the id, then \<^verbatim>\<open>break\<close>.\<close>

fun erase_first :: "u32 \<Rightarrow> SubscriberEntry list \<Rightarrow> SubscriberEntry list" where
  "erase_first ident [] = []"
| "erase_first ident (sub # rest) =
     (if sub_id sub = ident then rest else sub # erase_first ident rest)"

definition Unsubscribe :: "bool \<Rightarrow> MessageBus \<Rightarrow> u32 \<Rightarrow> MessageBus" where
  "Unsubscribe took bus ident =
     (if ident = kInvalidSubscription \<or> \<not> bus_initialized bus then bus
      else if \<not> took then bus
      else bus\<lparr>subscribers := erase_first ident (subscribers bus)\<rparr>)"

text \<open>
  The snapshot loop of \<^verbatim>\<open>Publish\<close>, run while the lock is held: it returns the
  subscriber list as the loop leaves it and the vector \<^verbatim>\<open>matches\<close>.
\<close>

fun snapshot ::
  "u32 \<Rightarrow> u32 \<Rightarrow> SubscriberEntry list \<Rightarrow> SubscriberEntry list \<times> SubscriberEntry list" where
  "snapshot topic now [] = ([], [])"
| "snapshot topic now (sub # rest) =
     (let (rest', matches) = snapshot topic now rest in
      if sub_topic sub = topic then
        if min_interval_ticks sub > 0 \<and> now - last_delivery_tick sub < min_interval_ticks sub
        then (sub # rest', matches)
        else (sub\<lparr>last_delivery_tick := now\<rparr> # rest',
              sub\<lparr>last_delivery_tick := now\<rparr> # matches)
      else (sub # rest', matches))"

text \<open>
  What the delivery loop does for one entry of \<^verbatim>\<open>matches\<close>: it calls the callback in the
  publisher's thread, or it hands a block to \<^verbatim>\<open>lv_async_call(LvglAsyncCb, payload)\<close>.
\<close>

datatype dispatch = Immediate_call Message | Lv_async_call AsyncPayload

definition caller_ptr :: "u8 list option \<Rightarrow> payload_ptr" where
  "caller_ptr p = (case p of None \<Rightarrow> Nullptr | Some buf \<Rightarrow> Bytes buf)"

text \<open>
  The delivery loop, outside the lock. \<open>k\<close> counts the \<^verbatim>\<open>malloc\<close> calls made so far by
  this \<^verbatim>\<open>Publish\<close>. Each result pairs the snapshot entry with what was done for it; an
  entry whose allocation failed is skipped (\<^verbatim>\<open>continue\<close>).
\<close>

fun deliver ::
  "(nat \<Rightarrow> bool) \<Rightarrow> nat \<Rightarrow> u32 \<Rightarrow> u8 list option \<Rightarrow> nat \<Rightarrow> u32 \<Rightarrow> SubscriberEntry list
     \<Rightarrow> (SubscriberEntry \<times> dispatch) list" where
  "deliver malloc_ok k topic dat sz now [] = []"
| "deliver malloc_ok k topic dat sz now (sub # rest) =
     (if sub_mode sub = Immediate then
        (sub, Immediate_call \<lparr>msg_topic = topic, msg_data = caller_ptr dat,
                              msg_data_size = sz, msg_timestamp = now\<rparr>)
          # deliver malloc_ok k topic dat sz now rest
      else if \<not> malloc_ok k then deliver malloc_ok (Suc k) topic dat sz now rest
      else
        (sub, Lv_async_call
           \<lparr>pl_callback = sub_callback sub, pl_topic = topic, pl_timestamp = now,
            pl_data_size = sz,
            pl_bytes = (case dat of
                          Some buf \<Rightarrow> if sz > 0 then Bytes (take sz buf) else Unwritten
                        | None \<Rightarrow> Unwritten)\<rparr>)
          # deliver malloc_ok (Suc k) topic dat sz now rest)"

definition Publish ::
  "bool \<Rightarrow> u32 \<Rightarrow> (nat \<Rightarrow> bool) \<Rightarrow> MessageBus \<Rightarrow> u32 \<Rightarrow> u8 list option \<Rightarrow> nat
     \<Rightarrow> MessageBus \<times> (SubscriberEntry \<times> dispatch) list" where
  "Publish took now malloc_ok bus topic dat sz =
     (if \<not> bus_initialized bus then (bus, [])
      else
        let sz' = (if sz > max_data_size (bus_config bus)
                     then max_data_size (bus_config bus) else sz)
        in if \<not> took then (bus, [])
           else
             let (subs', matches) = snapshot topic now (subscribers bus)
             in (bus\<lparr>subscribers := subs'\<rparr>,
                 deliver malloc_ok 0 topic dat sz' now matches))"

text \<open>
  \<^verbatim>\<open>LvglAsyncCb\<close>, run later in the LVGL task: the callback it invokes and the message it
  passes, if any. The block is freed afterwards.
\<close>

definition LvglAsyncCb :: "AsyncPayload option \<Rightarrow> (closure \<times> Message) option" where
  "LvglAsyncCb user_data =
     (case user_data of
        None \<Rightarrow> None
      | Some payload \<Rightarrow>
          (case pl_callback payload of
             None \<Rightarrow> None
           | Some f \<Rightarrow>
               Some (f, \<lparr>msg_topic = pl_topic payload,
                         msg_data = (if pl_data_size payload > 0 then pl_bytes payload
                                     else Nullptr),
                         msg_data_size = pl_data_size payload,
                         msg_timestamp = pl_timestamp payload\<rparr>)))"

section \<open>DataStore (data_store.cc)\<close>

definition ds_Initialize ::
  "bool \<Rightarrow> DataStore \<Rightarrow> DataStoreConfig \<Rightarrow> u32 \<Rightarrow> esp_err \<times> DataStore" where
  "ds_Initialize mutex_created store config base =
     (if ds_initialized store then (ESP_ERR_INVALID_STATE, store)
      else if \<not> mutex_created
        then (ESP_ERR_NO_MEM, store\<lparr>ds_config := config, topic_base := base\<rparr>)
      else (ESP_OK, store\<lparr>ds_config := config, topic_base := base, ds_initialized := True\<rparr>))"

text \<open>A call of \<^verbatim>\<open>MessageBus::Publish(topic, data, size)\<close> made by the store.\<close>

record publish_call =
  pc_topic :: u32
  pc_data :: "u8 list option"
  pc_size :: nat

text \<open>
  The part of \<^verbatim>\<open>SetRaw\<close> that runs under the store's lock: the map afterwards and the
  flag \<^verbatim>\<open>changed\<close>.
\<close>

definition set_locked ::
  "(u32 \<rightharpoonup> u8 list) \<Rightarrow> u32 \<Rightarrow> u8 list \<Rightarrow> nat \<Rightarrow> (u32 \<rightharpoonup> u8 list) \<times> bool" where
  "set_locked es key buf sz =
     (case es key of
        None \<Rightarrow> (es(key \<mapsto> take sz buf), True)
      | Some existing \<Rightarrow>
          if length existing \<noteq> sz \<or> existing \<noteq> take sz buf
          then (es(key \<mapsto> take sz buf), True)
          else (es, False))"

text \<open>
  \<^verbatim>\<open>SetRaw\<close>. \<open>took\<close> is the store's lock; \<open>bus_took\<close>, \<open>now\<close> and \<open>malloc_ok\<close> are
  what the bus meets if \<^verbatim>\<open>Publish\<close> is called. The result is the store, the bus, the
  \<^verbatim>\<open>Publish\<close> calls made and what those delivered.
\<close>

definition SetRaw ::
  "bool \<Rightarrow> bool \<Rightarrow> u32 \<Rightarrow> (nat \<Rightarrow> bool) \<Rightarrow> DataStore \<Rightarrow> MessageBus \<Rightarrow> u32 \<Rightarrow> u8 list option \<Rightarrow> nat
     \<Rightarrow> DataStore \<times> MessageBus \<times> publish_call list \<times> (SubscriberEntry \<times> dispatch) list" where
  "SetRaw took bus_took now malloc_ok store bus key dat sz =
     (case dat of
        None \<Rightarrow> (store, bus, [], [])
      | Some buf \<Rightarrow>
          if \<not> ds_initialized store \<or> sz = 0 then (store, bus, [], [])
          else if sz > max_entry_size (ds_config store) then (store, bus, [], [])
          else if \<not> took then (store, bus, [], [])
          else
            let (es, changed) = set_locked (entries store) key buf sz
            in if changed then
                 let (bus', delivered) =
                       Publish bus_took now malloc_ok bus (topic_base store + key) dat sz
                 in (store\<lparr>entries := es\<rparr>, bus',
                     [\<lparr>pc_topic = topic_base store + key, pc_data = dat, pc_size = sz\<rparr>],
                     delivered)
               else (store\<lparr>entries := es\<rparr>, bus, [], []))"

text \<open>
  \<^verbatim>\<open>GetRaw\<close>: the result and the output buffer afterwards. \<^verbatim>\<open>memcpy(out, v, size)\<close>
  overwrites the first \<open>size\<close> bytes of the buffer.
\<close>

definition GetRaw ::
  "bool \<Rightarrow> DataStore \<Rightarrow> u32 \<Rightarrow> u8 list option \<Rightarrow> nat \<Rightarrow> bool \<times> u8 list option" where
  "GetRaw took store key out sz =
     (case out of
        None \<Rightarrow> (False, out)
      | Some buf \<Rightarrow>
          if \<not> ds_initialized store \<or> sz = 0 then (False, out)
          else if \<not> took then (False, out)
          else
            (case entries store key of
               None \<Rightarrow> (False, out)
             | Some v \<Rightarrow>
                 if length v = sz then (True, Some (v @ drop sz buf))
                 else (False, out)))"

definition Watch ::
  "(u32 \<Rightarrow> u32) \<Rightarrow> bool \<Rightarrow> DataStore \<Rightarrow> MessageBus \<Rightarrow> u32 \<Rightarrow> nat option \<Rightarrow> u32 \<times> MessageBus" where
  "Watch ms_to_ticks bus_took store bus key callback =
     (case callback of
        None \<Rightarrow> (kInvalidSubscription, bus)
      | Some cb \<Rightarrow>
          if \<not> ds_initialized store then (kInvalidSubscription, bus)
          else Subscribe ms_to_ticks bus_took bus (topic_base store + key)
                 (Some (KeyWatcher key cb)) LvglAsync 0)"

definition Unwatch :: "bool \<Rightarrow> DataStore \<Rightarrow> MessageBus \<Rightarrow> u32 \<Rightarrow> DataStore \<times> MessageBus" where
  "Unwatch bus_took store bus ident = (store, Unsubscribe bus_took bus ident)"

definition Contains :: "bool \<Rightarrow> DataStore \<Rightarrow> u32 \<Rightarrow> bool" where
  "Contains took store key =
     (if \<not> ds_initialized store then False
      else if \<not> took then False
      else entries store key \<noteq> None)"

definition Remove :: "bool \<Rightarrow> DataStore \<Rightarrow> u32 \<Rightarrow> DataStore" where
  "Remove took store key =
     (if \<not> ds_initialized store then store
      else if \<not> took then store
      else store\<lparr>entries := (entries store)(key := None)\<rparr>)"

section \<open>Runs of bus operations\<close>

text \<open>
  A client's calls on the bus, each with what the environment decided for it. Callbacks
  are not executed by the model: a call of \<^verbatim>\<open>Publish\<close> yields the dispatches it made, in
  order, and what a callback does in turn is a further operation of the run.
\<close>

datatype bus_op =
    Op_Subscribe bool u32 MessageCallback DeliveryMode u32
  | Op_Unsubscribe bool u32
  | Op_Publish bool u32 "nat \<Rightarrow> bool" u32 "u8 list option" nat

text \<open>One call: the bus afterwards, the value a \<^verbatim>\<open>Subscribe\<close> returned, and the dispatches made.\<close>

fun apply_op ::
  "(u32 \<Rightarrow> u32) \<Rightarrow> MessageBus \<Rightarrow> bus_op \<Rightarrow> MessageBus \<times> u32 list \<times> (SubscriberEntry \<times> dispatch) list" where
  "apply_op tk bus (Op_Subscribe took topic cb mode ms) =
     (let (ident, bus') = Subscribe tk took bus topic cb mode ms in (bus', [ident], []))"
| "apply_op tk bus (Op_Unsubscribe took ident) = (Unsubscribe took bus ident, [], [])"
| "apply_op tk bus (Op_Publish took now ok topic dat sz) =
     (let (bus', delivered) = Publish took now ok bus topic dat sz in (bus', [], delivered))"

fun run ::
  "(u32 \<Rightarrow> u32) \<Rightarrow> MessageBus \<Rightarrow> bus_op list \<Rightarrow> MessageBus \<times> u32 list \<times> (SubscriberEntry \<times> dispatch) list" where
  "run tk bus [] = (bus, [], [])"
| "run tk bus (opr # ops) =
     (let (bus1, ids1, delivered1) = apply_op tk bus opr;
          (bus2, ids2, delivered2) = run tk bus1 ops
      in (bus2, ids1 @ ids2, delivered1 @ delivered2))"

text \<open>
  A \<^verbatim>\<open>Subscribe\<close> call succeeds when it passes the guards and takes the lock; \<open>issued\<close>
  lists the ids that the successful \<^verbatim>\<open>Subscribe\<close> calls of a run returned.
\<close>

fun passes_guards :: "MessageBus \<Rightarrow> bus_op \<Rightarrow> bool" where
  "passes_guards bus (Op_Subscribe took topic cb mode ms) =
     (bus_initialized bus \<and> cb \<noteq> None \<and> took)"
| "passes_guards bus _ = False"

fun issued :: "(u32 \<Rightarrow> u32) \<Rightarrow> MessageBus \<Rightarrow> bus_op list \<Rightarrow> u32 list" where
  "issued tk bus [] = []"
| "issued tk bus (opr # ops) =
     (if passes_guards bus opr then fst (snd (apply_op tk bus opr)) else [])
     @ issued tk (fst (apply_op tk bus opr)) ops"

text \<open>
  The id counter runs through \<open>1, \<dots>, 2\<^sup>3\<^sup>2 - 1\<close> and starts again at 1: \<open>nth_id n\<close> is its
  value after \<open>n\<close> successful \<^verbatim>\<open>Subscribe\<close> calls.
\<close>

definition cycle :: nat where
  "cycle = 2 ^ 32 - 1"

definition nth_id :: "nat \<Rightarrow> u32" where
  "nth_id n = of_nat (1 + n mod cycle)"

definition counter_at :: "MessageBus \<Rightarrow> nat \<Rightarrow> bool" where
  "counter_at bus c \<longleftrightarrow> bus_initialized bus \<and> next_id bus = nth_id c"

text \<open>
  The registry before the counter has wrapped: \<open>c\<close> ids were issued so far, at most
  \<open>2\<^sup>3\<^sup>2 - 1\<close>, and the registered entries carry pairwise distinct ones of them.
\<close>

definition issued_before :: "MessageBus \<Rightarrow> nat \<Rightarrow> bool" where
  "issued_before bus c \<longleftrightarrow>
     counter_at bus c \<and> c \<le> cycle \<and> distinct (map sub_id (subscribers bus))
     \<and> (\<forall>s \<in> set (subscribers bus). \<exists>n < c. sub_id s = nth_id n)"

text \<open>
  \<open>churn j n\<close>: \<open>n\<close> times, subscribe and unsubscribe again; the \<open>k\<close>-th round (from 0)
  expects the id \<open>j + k + 2\<close>.
\<close>

fun churn :: "nat \<Rightarrow> nat \<Rightarrow> bus_op list" where
  "churn j 0 = []"
| "churn j (Suc n) =
     Op_Subscribe True 8 (Some (UserFn 11)) Immediate 0
       # Op_Unsubscribe True (of_nat (j + 2)) # churn (Suc j) n"

section \<open>Notions used in the statements\<close>

text \<open>
  What \<^verbatim>\<open>Publish\<close> decides for one entry: \<open>fires\<close> says that the topic matches and the
  throttle lets the entry through; \<open>touch\<close> is the write \<^verbatim>\<open>sub.last_delivery_tick = now\<close>;
  \<open>clip\<close> is the payload size after truncation.
\<close>

definition touch :: "u32 \<Rightarrow> SubscriberEntry \<Rightarrow> SubscriberEntry" where
  "touch now sub = sub\<lparr>last_delivery_tick := now\<rparr>"

definition fires :: "u32 \<Rightarrow> u32 \<Rightarrow> SubscriberEntry \<Rightarrow> bool" where
  "fires topic now sub \<longleftrightarrow>
     sub_topic sub = topic \<and>
     \<not> (min_interval_ticks sub > 0 \<and> now - last_delivery_tick sub < min_interval_ticks sub)"

definition clip :: "MessageBus \<Rightarrow> nat \<Rightarrow> nat" where
  "clip bus sz = (if sz > max_data_size (bus_config bus) then max_data_size (bus_config bus) else sz)"

text \<open>The header fields of a dispatch, whichever way it went.\<close>

definition dispatch_topic :: "dispatch \<Rightarrow> u32" where
  "dispatch_topic d = (case d of Immediate_call m \<Rightarrow> msg_topic m | Lv_async_call p \<Rightarrow> pl_topic p)"

definition dispatch_size :: "dispatch \<Rightarrow> nat" where
  "dispatch_size d =
     (case d of Immediate_call m \<Rightarrow> msg_data_size m | Lv_async_call p \<Rightarrow> pl_data_size p)"

definition dispatch_timestamp :: "dispatch \<Rightarrow> u32" where
  "dispatch_timestamp d =
     (case d of Immediate_call m \<Rightarrow> msg_timestamp m | Lv_async_call p \<Rightarrow> pl_timestamp p)"

text \<open>The number of \<^verbatim>\<open>malloc\<close> calls the delivery loop makes for a list of matches.\<close>

definition async_count :: "SubscriberEntry list \<Rightarrow> nat" where
  "async_count ms = length (filter (\<lambda>s. sub_mode s \<noteq> Immediate) ms)"

text \<open>
  The store's invariant: values are stored only by an initialised store, and each has
  between 1 and \<^verbatim>\<open>max_entry_size\<close> bytes. It holds of the new store and every operation
  keeps it (lemmas \<open>store_inv_new\<close> to \<open>store_inv_SetRaw\<close>).
\<close>

definition store_inv :: "DataStore \<Rightarrow> bool" where
  "store_inv store \<longleftrightarrow>
     (\<forall>k v. entries store k = Some v \<longrightarrow>
        ds_initialized store \<and> 0 < length v \<and> length v \<le> max_entry_size (ds_config store))"

section \<open>Concrete states\<close>

text \<open>
  A tick rate of 1 kHz, allocators, and small states: a bus that accepts 4 bytes of
  payload, and a store that accepts 4 bytes per value on topic base \<open>0x8000\<close>.
\<close>

definition ticks_1kHz :: "u32 \<Rightarrow> u32" where
  "ticks_1kHz ms = ms"

definition malloc_succeeds :: "nat \<Rightarrow> bool" where
  "malloc_succeeds k = True"

definition first_malloc_fails :: "nat \<Rightarrow> bool" where
  "first_malloc_fails k = (k \<noteq> 0)"

definition entry :: "u32 \<Rightarrow> u32 \<Rightarrow> nat \<Rightarrow> DeliveryMode \<Rightarrow> u32 \<Rightarrow> u32 \<Rightarrow> SubscriberEntry" where
  "entry ident topic f mode interval_ticks last_tick =
     \<lparr>sub_id = ident, sub_topic = topic, sub_callback = Some (UserFn f), sub_mode = mode,
      min_interval_ticks = interval_ticks, last_delivery_tick = last_tick\<rparr>"

definition bus_with :: "SubscriberEntry list \<Rightarrow> u32 \<Rightarrow> MessageBus" where
  "bus_with subs n =
     \<lparr>bus_initialized = True, bus_config = \<lparr>max_subscribers = 32, max_data_size = 4\<rparr>,
      subscribers = subs, next_id = n\<rparr>"

definition store_with :: "(u32 \<rightharpoonup> u8 list) \<Rightarrow> DataStore" where
  "store_with es =
     \<lparr>ds_initialized = True, ds_config = \<lparr>max_entry_size = 4\<rparr>, topic_base = 0x8000,
      entries = es\<rparr>"

lemmas ex_defs = ticks_1kHz_def malloc_succeeds_def first_malloc_fails_def entry_def bus_with_def
  store_with_def

section \<open>Lemmas\<close>

subsection \<open>The store's invariant\<close>

lemma store_inv_new: "store_inv new_DataStore"
  by (simp add: store_inv_def new_DataStore_def)

lemma store_inv_Initialize: "store_inv s \<Longrightarrow> store_inv (snd (ds_Initialize m s c b))"
  by (auto simp: store_inv_def ds_Initialize_def)

lemma store_inv_Remove: "store_inv s \<Longrightarrow> store_inv (Remove t s k)"
  by (auto simp: store_inv_def Remove_def)

lemma store_inv_SetRaw:
  assumes "store_inv s" and "\<forall>buf. dat = Some buf \<longrightarrow> sz \<le> length buf"
  shows "store_inv (fst (SetRaw t bt now ok s bus k dat sz))"
  using assms
  by (auto simp: store_inv_def SetRaw_def set_locked_def split: option.splits prod.splits if_splits)

subsection \<open>The snapshot and delivery loops\<close>

lemma fires_iff:
  "fires topic now sub \<longleftrightarrow>
     sub_topic sub = topic \<and> min_interval_ticks sub \<le> now - last_delivery_tick sub"
  by (auto simp: fires_def not_less word_gt_0)

lemma snapshot_fst:
  "fst (snapshot topic now xs) = map (\<lambda>s. if fires topic now s then touch now s else s) xs"
  by (induction xs) (auto simp: fires_def touch_def split: prod.splits)

lemma snapshot_snd:
  "snd (snapshot topic now xs) = map (touch now) (filter (fires topic now) xs)"
  by (induction xs) (auto simp: fires_def touch_def split: prod.splits)

lemma deliver_fst_subset:
  "(s, d) \<in> set (deliver ok k topic dat sz now ms) \<Longrightarrow> s \<in> set ms"
  by (induction ms arbitrary: k) (auto split: if_splits)

lemma deliver_header:
  "(s, d) \<in> set (deliver ok k topic dat sz now ms) \<Longrightarrow>
     dispatch_topic d = topic \<and> dispatch_size d = sz \<and> dispatch_timestamp d = now"
  by (induction ms arbitrary: k)
     (auto simp: dispatch_topic_def dispatch_size_def dispatch_timestamp_def split: if_splits)

lemma deliver_immediate:
  "s \<in> set ms \<Longrightarrow> sub_mode s = Immediate \<Longrightarrow>
     (s, Immediate_call \<lparr>msg_topic = topic, msg_data = caller_ptr dat,
                          msg_data_size = sz, msg_timestamp = now\<rparr>)
       \<in> set (deliver ok k topic dat sz now ms)"
  by (induction ms arbitrary: k) auto

lemma deliver_append:
  "deliver ok k topic dat sz now (xs @ ys) =
     deliver ok k topic dat sz now xs @ deliver ok (k + async_count xs) topic dat sz now ys"
  by (induction xs arbitrary: k) (auto simp: async_count_def)

lemma deliver_all_ok:
  "(\<forall>j. k \<le> j \<and> j < k + async_count ms \<longrightarrow> ok j) \<Longrightarrow>
     map fst (deliver ok k topic dat sz now ms) = ms"
proof (induction ms arbitrary: k)
  case Nil
  then show ?case by simp
next
  case (Cons s ms)
  show ?case
  proof (cases "sub_mode s = Immediate")
    case True
    with Cons show ?thesis by (simp add: async_count_def)
  next
    case False
    with Cons.prems have "ok k" by (simp add: async_count_def)
    moreover have "map fst (deliver ok (Suc k) topic dat sz now ms) = ms"
      using Cons.prems False by (intro Cons.IH) (auto simp: async_count_def)
    ultimately show ?thesis using False by simp
  qed
qed

subsection \<open>Publish\<close>

lemma Publish_eq:
  "Publish took now ok bus topic dat sz =
     (if bus_initialized bus \<and> took
      then (bus\<lparr>subscribers := map (\<lambda>s. if fires topic now s then touch now s else s) (subscribers bus)\<rparr>,
            deliver ok 0 topic dat (clip bus sz) now
              (map (touch now) (filter (fires topic now) (subscribers bus))))
      else (bus, []))"
  using snapshot_fst[of topic now "subscribers bus"] snapshot_snd[of topic now "subscribers bus"]
  by (auto simp: Publish_def clip_def Let_def split: prod.splits)

lemma Publish_delivered_origin:
  assumes "Publish took now ok bus topic dat sz = (bus', delivered)"
    and "(s', d) \<in> set delivered"
  shows "\<exists>s \<in> set (subscribers bus). s' = s\<lparr>last_delivery_tick := now\<rparr> \<and> sub_topic s = topic
           \<and> min_interval_ticks s \<le> now - last_delivery_tick s"
proof -
  from assms have "s' \<in> set (map (touch now) (filter (fires topic now) (subscribers bus)))"
    by (auto simp: Publish_eq split: if_splits dest: deliver_fst_subset)
  then show ?thesis
    by (auto simp: touch_def fires_iff)
qed

lemma Publish_registry_nth:
  assumes "Publish took now ok bus topic dat sz = (bus', delivered)"
    and "i < length (subscribers bus)"
  shows "subscribers bus' ! i =
           (if bus_initialized bus \<and> took \<and> fires topic now (subscribers bus ! i)
            then (subscribers bus ! i)\<lparr>last_delivery_tick := now\<rparr> else subscribers bus ! i)"
  using assms by (auto simp: Publish_eq touch_def split: if_splits)

lemma Publish_length:
  "length (subscribers (fst (Publish took now ok bus topic dat sz))) = length (subscribers bus)"
  by (simp add: Publish_eq)

lemma Publish_ids:
  "map sub_id (subscribers (fst (Publish took now ok bus topic dat sz))) = map sub_id (subscribers bus)"
  by (simp add: Publish_eq touch_def comp_def)

lemma Publish_fst_malloc:
  "fst (Publish took now ok bus topic dat sz) = fst (Publish took now ok' bus topic dat sz)"
  by (simp add: Publish_eq)

subsection \<open>Unsubscribe\<close>

lemma erase_first_subset: "set (erase_first i xs) \<subseteq> set xs"
  by (induction xs) auto

lemma erase_first_absent:
  "length (filter (\<lambda>s. sub_id s = i) xs) \<le> 1 \<Longrightarrow> i \<notin> sub_id ` set (erase_first i xs)"
proof (induction xs)
  case Nil
  then show ?case by simp
next
  case (Cons x xs)
  show ?case
  proof (cases "sub_id x = i")
    case True
    with Cons.prems have "filter (\<lambda>s. sub_id s = i) xs = []" by simp
    then have "i \<notin> sub_id ` set xs"
      by (auto simp: filter_empty_conv)
    with True show ?thesis by simp
  next
    case False
    with Cons show ?thesis by auto
  qed
qed

lemma erase_first_noop: "i \<notin> sub_id ` set xs \<Longrightarrow> erase_first i xs = xs"
  by (induction xs) auto

lemma apply_op_absent:
  assumes "i \<notin> sub_id ` set (subscribers bus)"
    and "passes_guards bus opr \<longrightarrow> fst (snd (apply_op tk bus opr)) \<noteq> [i]"
  shows "i \<notin> sub_id ` set (subscribers (fst (apply_op tk bus opr)))
       \<and> (\<forall>(s, d) \<in> set (snd (snd (apply_op tk bus opr))). sub_id s \<noteq> i)"
proof (cases opr)
  case (Op_Subscribe took topic cb mode ms)
  with assms show ?thesis
    by (auto simp: Subscribe_def Let_def split: if_splits)
next
  case (Op_Unsubscribe took j)
  with assms erase_first_subset[of j "subscribers bus"] show ?thesis
    by (auto simp: Unsubscribe_def)
next
  case (Op_Publish took now ok topic dat sz)
  obtain bus' delivered where P: "Publish took now ok bus topic dat sz = (bus', delivered)"
    by (cases "Publish took now ok bus topic dat sz")
  have ids: "map sub_id (subscribers bus') = map sub_id (subscribers bus)"
    using Publish_ids[of took now ok bus topic dat sz] P by simp
  then have "sub_id ` set (subscribers bus') = sub_id ` set (subscribers bus)"
    by (metis set_map)
  moreover have "\<forall>(s, d) \<in> set delivered. sub_id s \<noteq> i"
    using Publish_delivered_origin[OF P] assms(1) by fastforce
  ultimately show ?thesis
    using Op_Publish P assms(1) by simp
qed

lemma run_absent:
  "i \<notin> sub_id ` set (subscribers bus) \<Longrightarrow> i \<notin> set (issued tk bus ops) \<Longrightarrow>
     (\<forall>(s, d) \<in> set (snd (snd (run tk bus ops))). sub_id s \<noteq> i)"
proof (induction ops arbitrary: bus)
  case Nil
  then show ?case by simp
next
  case (Cons opr ops)
  have ret: "passes_guards bus opr \<longrightarrow> fst (snd (apply_op tk bus opr)) \<noteq> [i]"
    using Cons.prems(2) by auto
  from apply_op_absent[OF Cons.prems(1) ret]
  have a: "i \<notin> sub_id ` set (subscribers (fst (apply_op tk bus opr)))"
    and b: "\<forall>(s, d) \<in> set (snd (snd (apply_op tk bus opr))). sub_id s \<noteq> i"
    by simp_all
  have "i \<notin> set (issued tk (fst (apply_op tk bus opr)) ops)"
    using Cons.prems(2) by simp
  from Cons.IH[OF a this]
  have c: "\<forall>(s, d) \<in> set (snd (snd (run tk (fst (apply_op tk bus opr)) ops))). sub_id s \<noteq> i" .
  have "snd (snd (run tk bus (opr # ops)))
          = snd (snd (apply_op tk bus opr)) @ snd (snd (run tk (fst (apply_op tk bus opr)) ops))"
    by (simp add: Let_def split: prod.splits)
  with b c show ?case
    by (simp only: set_append ball_Un)
qed

subsection \<open>The id counter\<close>

lemma unat_small: "m < 2 ^ 32 \<Longrightarrow> unat (of_nat m :: u32) = m"
  by (rule of_nat_inverse) simp_all

lemma nth_id_bounds: "0 < 1 + n mod cycle \<and> 1 + n mod cycle < 2 ^ 32"
  using mod_less_divisor[of cycle n] by (simp add: cycle_def)

lemma unat_nth_id: "unat (nth_id n) = 1 + n mod cycle"
  unfolding nth_id_def using nth_id_bounds[of n] by (intro unat_small) blast

lemma nth_id_nonzero: "nth_id n \<noteq> 0"
  using unat_nth_id[of n] by (metis add_is_0 unat_0 zero_neq_one)

lemma nth_id_0: "nth_id 0 = 1"
proof -
  have "(0::nat) mod cycle = 0" by (rule mod_0)
  then show ?thesis by (simp only: nth_id_def add_0_right of_nat_1)
qed

lemma nth_id_inj:
  assumes "m < cycle" and "n < cycle" and eq: "nth_id m = nth_id n"
  shows "m = n"
proof -
  have "unat (nth_id m) = unat (nth_id n)" by (simp only: eq)
  then have "1 + m mod cycle = 1 + n mod cycle" by (simp only: unat_nth_id)
  with assms(1,2) show ?thesis by simp
qed

lemma wrap_iff: "(x :: u32) + 1 = 0 \<longleftrightarrow> x = 0xFFFFFFFF"
proof -
  have m: "(- 1 :: u32) = 0xFFFFFFFF" by simp
  show ?thesis
    using eq_neg_iff_add_eq_0[of x 1] unfolding m by blast
qed

lemma nth_id_step:
  "(if nth_id n + 1 = 0 then 1 else nth_id n + 1) = nth_id (Suc n)"
proof (cases "Suc (n mod cycle) = cycle")
  case True
  then have "Suc n mod cycle = 0"
    by (metis mod_Suc)
  then have r: "nth_id (Suc n) = 1"
    by (simp add: nth_id_def)
  have "unat (nth_id n) = 2 ^ 32 - 1"
    using True unat_nth_id[of n] by (simp add: cycle_def)
  then have "unat (nth_id n) = unat (of_nat (2 ^ 32 - 1) :: u32)"
    by (simp add: unat_small)
  then have "nth_id n = of_nat (2 ^ 32 - 1)"
    by (simp only: word_unat_eq_iff)
  then have "nth_id n + 1 = 0"
    by simp
  with r show ?thesis by simp
next
  case False
  then have s: "Suc n mod cycle = Suc (n mod cycle)"
    by (simp add: mod_Suc)
  have lt: "n mod cycle < cycle" by (simp add: cycle_def)
  with False have b: "2 + n mod cycle < 2 ^ 32" by (simp add: cycle_def)
  have e: "nth_id n + 1 = of_nat (2 + n mod cycle)"
    unfolding nth_id_def by simp
  have "unat (of_nat (2 + n mod cycle) :: u32) = 2 + n mod cycle"
    using b by (rule unat_small)
  then have "(of_nat (2 + n mod cycle) :: u32) \<noteq> 0"
    by (metis add_2_eq_Suc nat.distinct(1) unat_0)
  with e have "nth_id n + 1 \<noteq> 0" by simp
  moreover have "nth_id (Suc n) = nth_id n + 1"
    unfolding e unfolding nth_id_def s by simp
  ultimately show ?thesis by simp
qed

lemma counter_at_fresh: "counter_at (snd (Initialize True new_MessageBus cfg)) 0"
  unfolding counter_at_def nth_id_0 by (simp add: Initialize_def new_MessageBus_def)

lemma apply_op_counter:
  assumes "counter_at bus c"
  shows "counter_at (fst (apply_op tk bus opr)) (if passes_guards bus opr then Suc c else c)
       \<and> (passes_guards bus opr \<longrightarrow> fst (snd (apply_op tk bus opr)) = [nth_id c])"
  using assms nth_id_step[of c]
  by (cases opr)
     (auto simp: counter_at_def Subscribe_def Unsubscribe_def Publish_eq Let_def kInvalidSubscription_def
           split: prod.splits)

lemma issued_counter:
  "counter_at bus c \<Longrightarrow>
     issued tk bus ops = map (\<lambda>n. nth_id (c + n)) [0..<length (issued tk bus ops)]
     \<and> counter_at (fst (run tk bus ops)) (c + length (issued tk bus ops))"
proof (induction ops arbitrary: bus c)
  case Nil
  then show ?case by simp
next
  case (Cons opr ops)
  let ?b = "fst (apply_op tk bus opr)"
  let ?c = "if passes_guards bus opr then Suc c else c"
  from apply_op_counter[OF Cons.prems, of tk opr]
  have step: "counter_at ?b ?c"
    and ret: "passes_guards bus opr \<longrightarrow> fst (snd (apply_op tk bus opr)) = [nth_id c]"
    by simp_all
  from Cons.IH[OF step]
  have ih: "issued tk ?b ops = map (\<lambda>n. nth_id (?c + n)) [0..<length (issued tk ?b ops)]"
    and ihc: "counter_at (fst (run tk ?b ops)) (?c + length (issued tk ?b ops))"
    by simp_all
  have run_fst: "fst (run tk bus (opr # ops)) = fst (run tk ?b ops)"
    by (simp add: Let_def split: prod.splits)
  show ?case
  proof (cases "passes_guards bus opr")
    case True
    let ?n = "length (issued tk ?b ops)"
    have "issued tk bus (opr # ops) = nth_id c # issued tk ?b ops"
      using True ret by simp
    also have "\<dots> = nth_id c # map (\<lambda>n. nth_id (Suc c + n)) [0..<?n]"
      using ih True by simp
    also have "\<dots> = map (\<lambda>n. nth_id (c + n)) [0..<Suc ?n]"
      by (simp add: upt_conv_Cons map_Suc_upt[symmetric] del: upt_Suc)
    finally have "issued tk bus (opr # ops) = map (\<lambda>n. nth_id (c + n)) [0..<Suc ?n]" .
    moreover have "length (issued tk bus (opr # ops)) = Suc ?n"
      using True ret by simp
    ultimately show ?thesis
      using ihc True run_fst by simp
  next
    case False
    then show ?thesis using ih ihc run_fst by simp
  qed
qed

subsection \<open>A bus whose id counter is about to wrap\<close>

text \<open>
  After the first subscription, \<open>2\<^sup>3\<^sup>2 - 3\<close> rounds of subscribing and unsubscribing leave the
  first entry registered and the counter at \<open>0xFFFFFFFF\<close>.
\<close>

lemma run_fst_Cons: "fst (run tk bus (opr # ops)) = fst (run tk (fst (apply_op tk bus opr)) ops)"
  by (simp add: Let_def split: prod.splits)

lemma churn_step:
  assumes "j + 3 < 2 ^ 32"
  shows "fst (apply_op tk (fst (apply_op tk (bus_with [entry 1 7 10 Immediate 0 0] (of_nat (j + 2)))
             (Op_Subscribe True 8 (Some (UserFn 11)) Immediate 0)))
           (Op_Unsubscribe True (of_nat (j + 2))))
         = bus_with [entry 1 7 10 Immediate 0 0] (of_nat (Suc j + 2))"
proof -
  have b2: "j + 2 < 2 ^ 32" and b3: "j + 3 < 2 ^ 32" using assms by simp_all
  have u2: "unat (of_nat (j + 2) :: u32) = j + 2" by (rule unat_small[OF b2])
  have u3: "unat (of_nat (j + 3) :: u32) = j + 3" by (rule unat_small[OF b3])
  have n0: "(of_nat (j + 2) :: u32) \<noteq> 0"
  proof
    assume e: "(of_nat (j + 2) :: u32) = 0"
    have "unat (of_nat (j + 2) :: u32) = unat (0 :: u32)" by (simp only: e)
    with u2 have "j + 2 = 0" by (simp only: unat_0)
    then show False by simp
  qed
  have n1: "(of_nat (j + 2) :: u32) \<noteq> 1"
  proof
    assume e: "(of_nat (j + 2) :: u32) = 1"
    have "unat (of_nat (j + 2) :: u32) = unat (1 :: u32)" by (simp only: e)
    with u2 have "j + 2 = 1" by (simp only: unat_1)
    then show False by simp
  qed
  have n3: "(of_nat (j + 3) :: u32) \<noteq> 0"
  proof
    assume e: "(of_nat (j + 3) :: u32) = 0"
    have "unat (of_nat (j + 3) :: u32) = unat (0 :: u32)" by (simp only: e)
    with u3 have "j + 3 = 0" by (simp only: unat_0)
    then show False by simp
  qed
  have "(of_nat (j + 2) :: u32) + 1 = of_nat (j + 3)" by simp
  with n3 have s: "(of_nat (j + 2) :: u32) + 1 \<noteq> 0" by metis
  have "(of_nat (Suc j + 2) :: u32) = of_nat (j + 2) + 1" by simp
  then show ?thesis
    using n0 n1 s
    by (simp add: Subscribe_def Unsubscribe_def Let_def kInvalidSubscription_def bus_with_def entry_def
        del: of_nat_add of_nat_Suc)
qed

lemma churn_run:
  "j + n + 2 < 2 ^ 32 \<Longrightarrow>
     fst (run tk (bus_with [entry 1 7 10 Immediate 0 0] (of_nat (j + 2))) (churn j n))
       = bus_with [entry 1 7 10 Immediate 0 0] (of_nat (j + n + 2))"
proof (induction n arbitrary: j)
  case 0
  then show ?case by simp
next
  case (Suc n)
  have "j + 3 < 2 ^ 32" using Suc.prems by simp
  from churn_step[OF this, of tk]
  have "fst (run tk (bus_with [entry 1 7 10 Immediate 0 0] (of_nat (j + 2))) (churn j (Suc n)))
          = fst (run tk (bus_with [entry 1 7 10 Immediate 0 0] (of_nat (Suc j + 2))) (churn (Suc j) n))"
    by (simp only: churn.simps run_fst_Cons)
  also have "\<dots> = bus_with [entry 1 7 10 Immediate 0 0] (of_nat (Suc j + n + 2))"
    using Suc.prems by (intro Suc.IH) simp
  finally show ?case by simp
qed

lemma wrapped_bus_reachable:
  "fst (run tk (snd (Initialize True new_MessageBus \<lparr>max_subscribers = 32, max_data_size = 4\<rparr>))
         (Op_Subscribe True 7 (Some (UserFn 10)) Immediate 0 # churn 0 (2 ^ 32 - 3)))
     = bus_with [entry 1 7 10 Immediate 0 0] 0xFFFFFFFF"
proof -
  have "fst (apply_op tk (snd (Initialize True new_MessageBus \<lparr>max_subscribers = 32, max_data_size = 4\<rparr>))
          (Op_Subscribe True 7 (Some (UserFn 10)) Immediate 0))
        = bus_with [entry 1 7 10 Immediate 0 0] (of_nat (0 + 2))"
    by (simp add: Initialize_def new_MessageBus_def Subscribe_def Let_def kInvalidSubscription_def
        bus_with_def entry_def)
  moreover have "fst (run tk (bus_with [entry 1 7 10 Immediate 0 0] (of_nat (0 + 2))) (churn 0 (2 ^ 32 - 3)))
        = bus_with [entry 1 7 10 Immediate 0 0] (of_nat (0 + (2 ^ 32 - 3) + 2))"
    by (rule churn_run) simp
  moreover have "(of_nat (0 + (2 ^ 32 - 3) + 2) :: u32) = 0xFFFFFFFF"
    by simp
  ultimately show ?thesis
    by (simp only: run_fst_Cons)
qed

subsection \<open>Unsubscribe before the id counter wraps\<close>

text \<open>
  As long as at most \<open>2\<^sup>3\<^sup>2 - 1\<close> ids were issued since the bus was initialised, the
  registered ids are pairwise distinct.
\<close>

lemma erase_first_distinct:
  "distinct (map sub_id xs) \<Longrightarrow> distinct (map sub_id (erase_first i xs))"
proof (induction xs)
  case Nil
  then show ?case by simp
next
  case (Cons x xs)
  then show ?case
    using erase_first_subset[of i xs] by auto
qed

lemma issued_before_fresh: "issued_before (snd (Initialize True new_MessageBus cfg)) 0"
  using counter_at_fresh[of cfg]
  by (simp add: issued_before_def Initialize_def new_MessageBus_def)

lemma apply_op_issued_before:
  assumes inv: "issued_before bus c"
    and room: "passes_guards bus opr \<longrightarrow> c < cycle"
  shows "issued_before (fst (apply_op tk bus opr)) (if passes_guards bus opr then Suc c else c)"
proof -
  from inv have cnt: "counter_at bus c" and le: "c \<le> cycle"
    and dist: "distinct (map sub_id (subscribers bus))"
    and old: "\<forall>s \<in> set (subscribers bus). \<exists>n < c. sub_id s = nth_id n"
    by (simp_all add: issued_before_def)
  from apply_op_counter[OF cnt, of tk opr]
  have cnt': "counter_at (fst (apply_op tk bus opr)) (if passes_guards bus opr then Suc c else c)"
    by simp
  show ?thesis
  proof (cases opr)
    case (Op_Subscribe took topic cb mode ms)
    show ?thesis
    proof (cases "passes_guards bus opr")
      case True
      with room have c: "c < cycle" by simp
      have nid: "next_id bus = nth_id c" using cnt by (simp add: counter_at_def)
      have fresh: "nth_id c \<notin> sub_id ` set (subscribers bus)"
      proof
        assume "nth_id c \<in> sub_id ` set (subscribers bus)"
        then obtain s where "s \<in> set (subscribers bus)" "sub_id s = nth_id c" by auto
        with old obtain n where "n < c" "nth_id n = nth_id c" by metis
        with c nth_id_inj[of n c] show False by simp
      qed
      have subs: "subscribers (fst (apply_op tk bus opr))
                    = subscribers bus @ [\<lparr>sub_id = nth_id c, sub_topic = topic, sub_callback = cb,
                        sub_mode = mode,
                        min_interval_ticks = (if ms > 0 then tk ms else 0),
                        last_delivery_tick = 0\<rparr>]"
        using True Op_Subscribe nid by (auto simp: Subscribe_def Let_def)
      have "distinct (map sub_id (subscribers (fst (apply_op tk bus opr))))"
        unfolding subs using dist fresh by simp
      moreover have "\<forall>s \<in> set (subscribers (fst (apply_op tk bus opr))). \<exists>n < Suc c. sub_id s = nth_id n"
        unfolding subs using old by (auto intro: less_SucI)
      ultimately show ?thesis
        using cnt' True c by (simp add: issued_before_def)
    next
      case False
      then have "fst (apply_op tk bus opr) = bus"
        using Op_Subscribe by (auto simp: Subscribe_def)
      with inv False show ?thesis by simp
    qed
  next
    case (Op_Unsubscribe took j)
    have "set (subscribers (fst (apply_op tk bus opr))) \<subseteq> set (subscribers bus)"
      using Op_Unsubscribe erase_first_subset[of j "subscribers bus"]
      by (auto simp: Unsubscribe_def)
    moreover have "distinct (map sub_id (subscribers (fst (apply_op tk bus opr))))"
      using Op_Unsubscribe dist erase_first_distinct[OF dist, of j]
      by (auto simp: Unsubscribe_def)
    ultimately show ?thesis
      using cnt' le old Op_Unsubscribe by (auto simp: issued_before_def)
  next
    case (Op_Publish took now ok topic dat sz)
    have ids: "map sub_id (subscribers (fst (apply_op tk bus opr))) = map sub_id (subscribers bus)"
      using Op_Publish Publish_ids[of took now ok bus topic dat sz]
      by (simp add: split_beta)
    then have "sub_id ` set (subscribers (fst (apply_op tk bus opr))) = sub_id ` set (subscribers bus)"
      by (metis set_map)
    then have "\<forall>s \<in> set (subscribers (fst (apply_op tk bus opr))). \<exists>n < c. sub_id s = nth_id n"
      using old by (metis (no_types, lifting) image_iff)
    then show ?thesis
      using cnt' le dist ids Op_Publish by (simp add: issued_before_def)
  qed
qed

lemma run_issued_before:
  "issued_before bus c \<Longrightarrow> c + length (issued tk bus ops) \<le> cycle \<Longrightarrow>
     issued_before (fst (run tk bus ops)) (c + length (issued tk bus ops))"
proof (induction ops arbitrary: bus c)
  case Nil
  then show ?case by simp
next
  case (Cons opr ops)
  let ?b = "fst (apply_op tk bus opr)"
  let ?c = "if passes_guards bus opr then Suc c else c"
  from Cons.prems(1) have cnt: "counter_at bus c" by (simp add: issued_before_def)
  from apply_op_counter[OF cnt, of tk opr]
  have ret: "passes_guards bus opr \<longrightarrow> fst (snd (apply_op tk bus opr)) = [nth_id c]" by simp
  then have len: "length (issued tk bus (opr # ops)) = (if passes_guards bus opr then 1 else 0) + length (issued tk ?b ops)"
    by simp
  have room: "passes_guards bus opr \<longrightarrow> c < cycle"
    using Cons.prems(2) len by auto
  from apply_op_issued_before[OF Cons.prems(1) room, of tk]
  have step: "issued_before ?b ?c" .
  have "?c + length (issued tk ?b ops) \<le> cycle"
    using Cons.prems(2) len by auto
  from Cons.IH[OF step this]
  have "issued_before (fst (run tk ?b ops)) (?c + length (issued tk ?b ops))" .
  moreover have "?c + length (issued tk ?b ops) = c + length (issued tk bus (opr # ops))"
    using len by simp
  ultimately show ?case
    by (simp only: run_fst_Cons)
qed

lemma registry_ids_distinct_before_wrap:
  assumes "length (issued tk (snd (Initialize True new_MessageBus cfg)) ops) \<le> 2 ^ 32 - 1"
  shows "distinct (map sub_id (subscribers (fst (run tk (snd (Initialize True new_MessageBus cfg)) ops))))
       \<and> bus_initialized (fst (run tk (snd (Initialize True new_MessageBus cfg)) ops))"
  using run_issued_before[OF issued_before_fresh[of cfg], of tk ops] assms
  by (simp add: issued_before_def cycle_def counter_at_def)

lemma distinct_filter_le1:
  "distinct (map sub_id xs) \<Longrightarrow> length (filter (\<lambda>s. sub_id s = i) xs) \<le> 1"
proof (induction xs)
  case Nil
  then show ?case by simp
next
  case (Cons x xs)
  show ?case
  proof (cases "sub_id x = i")
    case True
    with Cons.prems have "i \<notin> sub_id ` set xs" by simp
    then have "filter (\<lambda>s. sub_id s = i) xs = []"
      by (auto simp: filter_empty_conv)
    with True show ?thesis by simp
  next
    case False
    with Cons show ?thesis by simp
  qed
qed

text \<open>
  Where at most one registered entry carries the nonzero id \<open>ident\<close>: once
  \<^verbatim>\<open>Unsubscribe(ident)\<close> has taken the lock and returned, no entry carries the id; in every
  later run in which no \<^verbatim>\<open>Subscribe\<close> issues the id again, no \<^verbatim>\<open>Publish\<close> dispatches
  anything under it; a second \<^verbatim>\<open>Unsubscribe(ident)\<close> leaves the bus as it is, and so does
  \<^verbatim>\<open>Unsubscribe(kInvalidSubscription)\<close> on any bus.
\<close>

lemma Unsubscribe_final:
  assumes init: "bus_initialized bus" and nz: "ident \<noteq> kInvalidSubscription"
    and uniq: "length (filter (\<lambda>s. sub_id s = ident) (subscribers bus)) \<le> 1"
  shows "ident \<notin> sub_id ` set (subscribers (Unsubscribe True bus ident))
    \<and> (\<forall>ops. ident \<notin> set (issued tk (Unsubscribe True bus ident) ops) \<longrightarrow>
          (\<forall>(s, d) \<in> set (snd (snd (run tk (Unsubscribe True bus ident) ops))). sub_id s \<noteq> ident))
    \<and> (\<forall>took. Unsubscribe took (Unsubscribe True bus ident) ident = Unsubscribe True bus ident)
    \<and> (\<forall>took b. Unsubscribe took b kInvalidSubscription = b)"
proof -
  have a: "ident \<notin> sub_id ` set (subscribers (Unsubscribe True bus ident))"
    using init nz erase_first_absent[OF uniq] by (simp add: Unsubscribe_def)
  have b: "\<forall>(s, d) \<in> set (snd (snd (run tk (Unsubscribe True bus ident) ops))). sub_id s \<noteq> ident"
    if "ident \<notin> set (issued tk (Unsubscribe True bus ident) ops)" for ops
    using run_absent[OF a that] .
  have u: "Unsubscribe True bus ident = bus\<lparr>subscribers := erase_first ident (subscribers bus)\<rparr>"
    using init nz by (simp add: Unsubscribe_def)
  have c: "Unsubscribe took (Unsubscribe True bus ident) ident = Unsubscribe True bus ident" for took
    using erase_first_noop[OF a] unfolding u by (simp add: Unsubscribe_def)
  have d: "Unsubscribe took b kInvalidSubscription = b" for took b
    by (simp add: Unsubscribe_def)
  from a b c d show ?thesis by blast
qed

text \<open>
  Ids 1 and 2 are registered; after \<^verbatim>\<open>Unsubscribe(1)\<close> the publishes of a later run
  reach ids 2 and 3 only, and a second \<^verbatim>\<open>Unsubscribe(1)\<close> changes nothing.
\<close>

lemma Unsubscribe_final_example:
  "Unsubscribe True (bus_with [entry 1 7 10 Immediate 0 0, entry 2 7 11 Immediate 0 0] 3) 1
     = bus_with [entry 2 7 11 Immediate 0 0] 3
   \<and> map (sub_id \<circ> fst) (snd (snd (run ticks_1kHz (bus_with [entry 2 7 11 Immediate 0 0] 3)
        [Op_Publish True 5 malloc_succeeds 7 None 0,
         Op_Subscribe True 7 (Some (UserFn 10)) Immediate 0,
         Op_Publish True 6 malloc_succeeds 7 None 0]))) = [2, 2, 3]
   \<and> Unsubscribe True (bus_with [entry 2 7 11 Immediate 0 0] 3) 1
     = bus_with [entry 2 7 11 Immediate 0 0] 3"
  using Unsubscribe_final[of "bus_with [entry 1 7 10 Immediate 0 0, entry 2 7 11 Immediate 0 0] 3" 1
      ticks_1kHz]
  by (simp add: ex_defs Unsubscribe_def Subscribe_def Publish_def Let_def kInvalidSubscription_def)

text \<open>
  So it is on every bus reached from a fresh one by a run that issued at most
  \<open>2\<^sup>3\<^sup>2 - 1\<close> ids.
\<close>

lemma Unsubscribe_final_before_wrap:
  assumes few: "length (issued tk (snd (Initialize True new_MessageBus cfg)) ops) \<le> 2 ^ 32 - 1"
    and bus: "bus = fst (run tk (snd (Initialize True new_MessageBus cfg)) ops)"
    and nz: "ident \<noteq> kInvalidSubscription"
  shows "ident \<notin> sub_id ` set (subscribers (Unsubscribe True bus ident))
    \<and> (\<forall>later. ident \<notin> set (issued tk (Unsubscribe True bus ident) later) \<longrightarrow>
          (\<forall>(s, d) \<in> set (snd (snd (run tk (Unsubscribe True bus ident) later))). sub_id s \<noteq> ident))
    \<and> (\<forall>took. Unsubscribe took (Unsubscribe True bus ident) ident = Unsubscribe True bus ident)"
proof -
  from registry_ids_distinct_before_wrap[OF few]
  have d: "distinct (map sub_id (subscribers bus))" and i: "bus_initialized bus"
    unfolding bus by simp_all
  from Unsubscribe_final[OF i nz distinct_filter_le1[OF d], of tk]
  show ?thesis by blast
qed

section \<open>The claims\<close>

subsection \<open>C1: change detection in SetRaw\<close>

text \<open>
  C1. \<^verbatim>\<open>SetRaw\<close> with the bytes already stored under the key changes nothing and makes no
  \<^verbatim>\<open>Publish\<close> call, whatever the state and the environment. On an initialised store whose
  lock is taken, \<^verbatim>\<open>SetRaw\<close> with between 1 and \<^verbatim>\<open>max_entry_size\<close> bytes that differ from
  the stored value, or under a key not yet present, stores the bytes and makes exactly one
  call \<^verbatim>\<open>Publish(topic_base + key, data, size)\<close>; the bus and the dispatches are those of
  that call. The value is \<open>take sz buf\<close>, the \<open>sz\<close> bytes the pointer gives.
\<close>

theorem SetRaw_change_detection:
  assumes wf: "sz \<le> length buf"
  shows "(entries store key = Some (take sz buf) \<longrightarrow>
            SetRaw took btook now ok store bus key (Some buf) sz = (store, bus, [], []))
    \<and> (ds_initialized store \<and> took \<and> 0 < sz \<and> sz \<le> max_entry_size (ds_config store)
         \<and> entries store key \<noteq> Some (take sz buf) \<longrightarrow>
         SetRaw took btook now ok store bus key (Some buf) sz
           = (store\<lparr>entries := (entries store)(key \<mapsto> take sz buf)\<rparr>,
              fst (Publish btook now ok bus (topic_base store + key) (Some buf) sz),
              [\<lparr>pc_topic = topic_base store + key, pc_data = Some buf, pc_size = sz\<rparr>],
              snd (Publish btook now ok bus (topic_base store + key) (Some buf) sz)))"
  using wf
  by (auto simp: SetRaw_def set_locked_def split: option.splits prod.splits)

text \<open>
  The stored value is written again (nothing happens), replaced (one call on \<open>0x8005\<close>) and
  written under a new key (one call on \<open>0x8006\<close>).
\<close>

theorem SetRaw_change_detection_witness:
  "SetRaw True True 0 malloc_succeeds (store_with [5 \<mapsto> [1, 2]]) (bus_with [] 1) 5 (Some [1, 2]) 2
     = (store_with [5 \<mapsto> [1, 2]], bus_with [] 1, [], [])
   \<and> SetRaw True True 0 malloc_succeeds (store_with [5 \<mapsto> [1, 2]]) (bus_with [] 1) 5 (Some [1, 3]) 2
     = (store_with [5 \<mapsto> [1, 3]], bus_with [] 1,
        [\<lparr>pc_topic = 0x8005, pc_data = Some [1, 3], pc_size = 2\<rparr>], [])
   \<and> SetRaw True True 0 malloc_succeeds (store_with [5 \<mapsto> [1, 2]]) (bus_with [] 1) 6 (Some [1, 2]) 2
     = (store_with [5 \<mapsto> [1, 2], 6 \<mapsto> [1, 2]], bus_with [] 1,
        [\<lparr>pc_topic = 0x8006, pc_data = Some [1, 2], pc_size = 2\<rparr>], [])"
  using SetRaw_change_detection[of 2 "[1, 2]" "store_with [5 \<mapsto> [1, 2]]" 5 True True 0
      malloc_succeeds "bus_with [] 1"]
    SetRaw_change_detection[of 2 "[1, 3]" "store_with [5 \<mapsto> [1, 2]]" 5 True True 0
      malloc_succeeds "bus_with [] 1"]
    SetRaw_change_detection[of 2 "[1, 2]" "store_with [5 \<mapsto> [1, 2]]" 6 True True 0
      malloc_succeeds "bus_with [] 1"]
  by (simp add: ex_defs Publish_def)

text \<open>
  The size bounds are needed: on an initialised store with \<^verbatim>\<open>max_entry_size = 4\<close> and no
  entry for key 5, a value of 5 bytes and a value of 0 bytes are both dropped: nothing is
  stored and no \<^verbatim>\<open>Publish\<close> call is made.
\<close>

theorem SetRaw_every_value_counterexample:
  "entries (store_with Map.empty) 5 = None
   \<and> SetRaw True True 0 malloc_succeeds (store_with Map.empty) (bus_with [] 1) 5
        (Some [1, 2, 3, 4, 5]) 5 = (store_with Map.empty, bus_with [] 1, [], [])
   \<and> SetRaw True True 0 malloc_succeeds (store_with Map.empty) (bus_with [] 1) 5 (Some []) 0
        = (store_with Map.empty, bus_with [] 1, [], [])"
  by (simp add: SetRaw_def ex_defs)

subsection \<open>C2: the throttle\<close>

text \<open>
  C2. For a call of \<^verbatim>\<open>Publish\<close> at tick \<open>now\<close>: every dispatch goes to the snapshot of a
  registered entry on the topic for which \<open>now - last_delivery_tick\<close> (in 32-bit
  arithmetic) is at least \<open>min_interval_ticks\<close>, and that snapshot carries
  \<open>last_delivery_tick = now\<close>; an entry on the topic that passes this test has its
  \<open>last_delivery_tick\<close> set to \<open>now\<close> in the registry; an entry with
  \<open>now - last_delivery_tick < min_interval_ticks\<close> is left unchanged, and, ids being
  distinct, nothing is dispatched under its id. \<^verbatim>\<open>Subscribe\<close> creates the entry with
  \<open>last_delivery_tick = 0\<close>.
\<close>

theorem Publish_throttle:
  assumes P: "Publish took now ok bus topic dat sz = (bus', delivered)"
  shows "length (subscribers bus') = length (subscribers bus)
    \<and> (\<forall>(s', d) \<in> set delivered. \<exists>s \<in> set (subscribers bus).
          s' = s\<lparr>last_delivery_tick := now\<rparr> \<and> sub_topic s = topic
          \<and> min_interval_ticks s \<le> now - last_delivery_tick s)
    \<and> (\<forall>i < length (subscribers bus).
          (bus_initialized bus \<and> took \<and> sub_topic (subscribers bus ! i) = topic
             \<and> min_interval_ticks (subscribers bus ! i) \<le> now - last_delivery_tick (subscribers bus ! i)
           \<longrightarrow> subscribers bus' ! i = (subscribers bus ! i)\<lparr>last_delivery_tick := now\<rparr>)
        \<and> (now - last_delivery_tick (subscribers bus ! i) < min_interval_ticks (subscribers bus ! i)
           \<longrightarrow> subscribers bus' ! i = subscribers bus ! i
             \<and> (distinct (map sub_id (subscribers bus)) \<longrightarrow>
                  (\<forall>(s', d) \<in> set delivered. sub_id s' \<noteq> sub_id (subscribers bus ! i)))))
    \<and> (bus_initialized bus \<and> cb \<noteq> None \<longrightarrow>
         last (subscribers (snd (Subscribe tk True bus topic cb mode ms)))
           = \<lparr>sub_id = next_id bus, sub_topic = topic, sub_callback = cb, sub_mode = mode,
              min_interval_ticks = (if 0 < ms then tk ms else 0), last_delivery_tick = 0\<rparr>)"
proof (intro conjI allI impI)
  show "length (subscribers bus') = length (subscribers bus)"
    using P Publish_length[of took now ok bus topic dat sz] by simp
next
  show "\<forall>(s', d) \<in> set delivered. \<exists>s \<in> set (subscribers bus).
          s' = s\<lparr>last_delivery_tick := now\<rparr> \<and> sub_topic s = topic
          \<and> min_interval_ticks s \<le> now - last_delivery_tick s"
    using Publish_delivered_origin[OF P] by blast
next
  fix i assume "i < length (subscribers bus)"
    and "bus_initialized bus \<and> took \<and> sub_topic (subscribers bus ! i) = topic
             \<and> min_interval_ticks (subscribers bus ! i) \<le> now - last_delivery_tick (subscribers bus ! i)"
  then show "subscribers bus' ! i = (subscribers bus ! i)\<lparr>last_delivery_tick := now\<rparr>"
    using Publish_registry_nth[OF P] by (simp add: fires_iff)
next
  fix i assume i: "i < length (subscribers bus)"
    and thr: "now - last_delivery_tick (subscribers bus ! i) < min_interval_ticks (subscribers bus ! i)"
  then have nf: "\<not> fires topic now (subscribers bus ! i)"
    by (auto simp: fires_iff)
  then show "subscribers bus' ! i = subscribers bus ! i"
    using Publish_registry_nth[OF P i] by simp
  assume dist: "distinct (map sub_id (subscribers bus))"
  show "\<forall>(s', d) \<in> set delivered. sub_id s' \<noteq> sub_id (subscribers bus ! i)"
  proof (clarify)
    fix s' d assume sd: "(s', d) \<in> set delivered" and eq: "sub_id s' = sub_id (subscribers bus ! i)"
    from Publish_delivered_origin[OF P sd] obtain s where
      s: "s \<in> set (subscribers bus)" "s' = s\<lparr>last_delivery_tick := now\<rparr>" "sub_topic s = topic"
         "min_interval_ticks s \<le> now - last_delivery_tick s" by blast
    then obtain j where j: "j < length (subscribers bus)" "subscribers bus ! j = s"
      by (auto simp: in_set_conv_nth)
    have "map sub_id (subscribers bus) ! j = map sub_id (subscribers bus) ! i"
      using j i s eq by simp
    with i j have "j = i"
      using nth_eq_iff_index_eq[OF dist, of j i] by simp
    with j s nf show False by (simp add: fires_iff)
  qed
next
  assume "bus_initialized bus \<and> cb \<noteq> None"
  then show "last (subscribers (snd (Subscribe tk True bus topic cb mode ms)))
           = \<lparr>sub_id = next_id bus, sub_topic = topic, sub_callback = cb, sub_mode = mode,
              min_interval_ticks = (if 0 < ms then tk ms else 0), last_delivery_tick = 0\<rparr>"
    by (auto simp: Subscribe_def Let_def)
qed

text \<open>
  A subscriber with an interval of 1000 ticks, subscribed on a bus that never delivered to
  it: a publish at tick 500 is skipped, one at tick 1000 is delivered and sets the tick,
  one at tick 1999 is skipped again.
\<close>

theorem Publish_throttle_witness:
  "Publish True 500 malloc_succeeds
       (snd (Subscribe ticks_1kHz True (bus_with [] 1) 7 (Some (UserFn 10)) Immediate 1000)) 7 None 0
     = (bus_with [entry 1 7 10 Immediate 1000 0] 2, [])
   \<and> Publish True 1000 malloc_succeeds
       (snd (Subscribe ticks_1kHz True (bus_with [] 1) 7 (Some (UserFn 10)) Immediate 1000)) 7 None 0
     = (bus_with [entry 1 7 10 Immediate 1000 1000] 2,
        [(entry 1 7 10 Immediate 1000 1000,
          Immediate_call \<lparr>msg_topic = 7, msg_data = Nullptr, msg_data_size = 0,
                           msg_timestamp = 1000\<rparr>)])
   \<and> Publish True 1999 malloc_succeeds (bus_with [entry 1 7 10 Immediate 1000 1000] 2) 7 None 0
     = (bus_with [entry 1 7 10 Immediate 1000 1000] 2, [])"
  using Publish_throttle[of True 500 malloc_succeeds
      "snd (Subscribe ticks_1kHz True (bus_with [] 1) 7 (Some (UserFn 10)) Immediate 1000)" 7 None 0
      "bus_with [entry 1 7 10 Immediate 1000 0] 2" "[]" "Some (UserFn 10)" ticks_1kHz Immediate 1000]
  by (simp add: ex_defs Publish_def Subscribe_def Let_def kInvalidSubscription_def caller_ptr_def)

subsection \<open>C3: Unsubscribe\<close>

text \<open>
  C3. The claim (no \<^verbatim>\<open>Publish\<close> invokes a subscription's callback once \<^verbatim>\<open>Unsubscribe\<close>
  of its id has returned, and a second \<^verbatim>\<open>Unsubscribe\<close> changes nothing) is what
  message_bus.h documents: \<^verbatim>\<open>Subscribe\<close> returns "A unique SubscriptionId (never 0)", and
  of \<^verbatim>\<open>Unsubscribe\<close>, "After this call returns the callback will never be invoked again".
  The code does not keep it once the id counter has wrapped. On a fresh bus, callback 10
  subscribes to topic 7 and gets id 1; \<open>2\<^sup>3\<^sup>2 - 3\<close> rounds of subscribing and unsubscribing
  leave it registered and the counter at \<open>0xFFFFFFFF\<close>. The next two \<^verbatim>\<open>Subscribe\<close> calls
  return \<open>0xFFFFFFFF\<close> and, for callback 20 on topic 7, the id 1 again.
  \<^verbatim>\<open>Unsubscribe(1)\<close> erases the entry of callback 10; a \<^verbatim>\<open>Publish\<close> on topic 7 then invokes
  callback 20 under id 1, and a second \<^verbatim>\<open>Unsubscribe(1)\<close> changes the registry.
\<close>

theorem Unsubscribe_after_wraparound:
  "fst (run ticks_1kHz
          (snd (Initialize True new_MessageBus \<lparr>max_subscribers = 32, max_data_size = 4\<rparr>))
          (Op_Subscribe True 7 (Some (UserFn 10)) Immediate 0 # churn 0 (2 ^ 32 - 3)))
     = bus_with [entry 1 7 10 Immediate 0 0] 0xFFFFFFFF
   \<and> Subscribe ticks_1kHz True (bus_with [entry 1 7 10 Immediate 0 0] 0xFFFFFFFF) 8 (Some (UserFn 11))
       Immediate 0
     = (0xFFFFFFFF, bus_with [entry 1 7 10 Immediate 0 0, entry 0xFFFFFFFF 8 11 Immediate 0 0] 1)
   \<and> Subscribe ticks_1kHz True
       (bus_with [entry 1 7 10 Immediate 0 0, entry 0xFFFFFFFF 8 11 Immediate 0 0] 1) 7
       (Some (UserFn 20)) Immediate 0
     = (1, bus_with [entry 1 7 10 Immediate 0 0, entry 0xFFFFFFFF 8 11 Immediate 0 0,
                     entry 1 7 20 Immediate 0 0] 2)
   \<and> Unsubscribe True
       (bus_with [entry 1 7 10 Immediate 0 0, entry 0xFFFFFFFF 8 11 Immediate 0 0,
                  entry 1 7 20 Immediate 0 0] 2) 1
     = bus_with [entry 0xFFFFFFFF 8 11 Immediate 0 0, entry 1 7 20 Immediate 0 0] 2
   \<and> snd (Publish True 5 malloc_succeeds
            (bus_with [entry 0xFFFFFFFF 8 11 Immediate 0 0, entry 1 7 20 Immediate 0 0] 2) 7 None 0)
     = [(entry 1 7 20 Immediate 0 5,
         Immediate_call \<lparr>msg_topic = 7, msg_data = Nullptr, msg_data_size = 0,
                          msg_timestamp = 5\<rparr>)]
   \<and> Unsubscribe True
       (bus_with [entry 0xFFFFFFFF 8 11 Immediate 0 0, entry 1 7 20 Immediate 0 0] 2) 1
     = bus_with [entry 0xFFFFFFFF 8 11 Immediate 0 0] 2
   \<and> bus_with [entry 0xFFFFFFFF 8 11 Immediate 0 0] 2
       \<noteq> bus_with [entry 0xFFFFFFFF 8 11 Immediate 0 0, entry 1 7 20 Immediate 0 0] 2"
proof (rule conjI)
  show "fst (run ticks_1kHz
          (snd (Initialize True new_MessageBus \<lparr>max_subscribers = 32, max_data_size = 4\<rparr>))
          (Op_Subscribe True 7 (Some (UserFn 10)) Immediate 0 # churn 0 (2 ^ 32 - 3)))
     = bus_with [entry 1 7 10 Immediate 0 0] 0xFFFFFFFF"
    by (rule wrapped_bus_reachable)
next
  show "Subscribe ticks_1kHz True (bus_with [entry 1 7 10 Immediate 0 0] 0xFFFFFFFF) 8 (Some (UserFn 11))
       Immediate 0
     = (0xFFFFFFFF, bus_with [entry 1 7 10 Immediate 0 0, entry 0xFFFFFFFF 8 11 Immediate 0 0] 1)
   \<and> Subscribe ticks_1kHz True
       (bus_with [entry 1 7 10 Immediate 0 0, entry 0xFFFFFFFF 8 11 Immediate 0 0] 1) 7
       (Some (UserFn 20)) Immediate 0
     = (1, bus_with [entry 1 7 10 Immediate 0 0, entry 0xFFFFFFFF 8 11 Immediate 0 0,
                     entry 1 7 20 Immediate 0 0] 2)
   \<and> Unsubscribe True
       (bus_with [entry 1 7 10 Immediate 0 0, entry 0xFFFFFFFF 8 11 Immediate 0 0,
                  entry 1 7 20 Immediate 0 0] 2) 1
     = bus_with [entry 0xFFFFFFFF 8 11 Immediate 0 0, entry 1 7 20 Immediate 0 0] 2
   \<and> snd (Publish True 5 malloc_succeeds
            (bus_with [entry 0xFFFFFFFF 8 11 Immediate 0 0, entry 1 7 20 Immediate 0 0] 2) 7 None 0)
     = [(entry 1 7 20 Immediate 0 5,
         Immediate_call \<lparr>msg_topic = 7, msg_data = Nullptr, msg_data_size = 0,
                          msg_timestamp = 5\<rparr>)]
   \<and> Unsubscribe True
       (bus_with [entry 0xFFFFFFFF 8 11 Immediate 0 0, entry 1 7 20 Immediate 0 0] 2) 1
     = bus_with [entry 0xFFFFFFFF 8 11 Immediate 0 0] 2
   \<and> bus_with [entry 0xFFFFFFFF 8 11 Immediate 0 0] 2
       \<noteq> bus_with [entry 0xFFFFFFFF 8 11 Immediate 0 0, entry 1 7 20 Immediate 0 0] 2"
    by (simp add: ex_defs Subscribe_def Unsubscribe_def Publish_def Let_def kInvalidSubscription_def
      caller_ptr_def)
qed

text \<open>
  In short: the id returned for callback 20 is 1, and after \<^verbatim>\<open>Unsubscribe(1)\<close> a
  \<^verbatim>\<open>Publish\<close> on topic 7 invokes callback 20.
\<close>

theorem Unsubscribe_after_wraparound_witness:
  "fst (Subscribe ticks_1kHz True
          (bus_with [entry 1 7 10 Immediate 0 0, entry 0xFFFFFFFF 8 11 Immediate 0 0] 1) 7
          (Some (UserFn 20)) Immediate 0) = 1
   \<and> map (sub_callback \<circ> fst)
        (snd (Publish True 5 malloc_succeeds
               (Unsubscribe True
                  (snd (Subscribe ticks_1kHz True
                          (bus_with [entry 1 7 10 Immediate 0 0, entry 0xFFFFFFFF 8 11 Immediate 0 0] 1)
                          7 (Some (UserFn 20)) Immediate 0)) 1)
               7 None 0))
       = [Some (UserFn 20)]"
  using Unsubscribe_after_wraparound
  by (simp add: entry_def)

subsection \<open>C4: oversize payloads and values\<close>

text \<open>
  C4. A \<^verbatim>\<open>Publish\<close> of more than \<^verbatim>\<open>max_data_size\<close> bytes behaves exactly as a
  \<^verbatim>\<open>Publish\<close> of \<^verbatim>\<open>max_data_size\<close> bytes from the same pointer, and every dispatch it
  makes carries the size \<^verbatim>\<open>max_data_size\<close>; the result has no error component. A
  \<^verbatim>\<open>SetRaw\<close> of more than \<^verbatim>\<open>max_entry_size\<close> bytes leaves store and bus unchanged and
  makes no \<^verbatim>\<open>Publish\<close> call.
\<close>

theorem oversize_asymmetry:
  "(max_data_size (bus_config bus) < sz \<longrightarrow>
      Publish took now ok bus topic dat sz
        = Publish took now ok bus topic dat (max_data_size (bus_config bus))
      \<and> (\<forall>(s, d) \<in> set (snd (Publish took now ok bus topic dat sz)).
            dispatch_size d = max_data_size (bus_config bus)))
   \<and> (max_entry_size (ds_config store) < sz' \<longrightarrow>
      SetRaw stook btook now ok store bus key dat' sz' = (store, bus, [], []))"
  by (auto simp: Publish_eq clip_def SetRaw_def split: option.splits dest: deliver_header)

text \<open>
  Six bytes published on a bus that accepts four: both subscribers are served with size 4,
  the deferred one with a copy of the first four bytes. Five bytes set on a store that
  accepts four: nothing happens.
\<close>

theorem oversize_asymmetry_witness:
  "snd (Publish True 9 malloc_succeeds (bus_with [entry 1 7 10 Immediate 0 0, entry 2 7 11 LvglAsync 0 0] 3)
          7 (Some [1, 2, 3, 4, 5, 6]) 6)
     = [(entry 1 7 10 Immediate 0 9,
         Immediate_call \<lparr>msg_topic = 7, msg_data = Bytes [1, 2, 3, 4, 5, 6], msg_data_size = 4,
                          msg_timestamp = 9\<rparr>),
        (entry 2 7 11 LvglAsync 0 9,
         Lv_async_call \<lparr>pl_callback = Some (UserFn 11), pl_topic = 7, pl_timestamp = 9,
                         pl_data_size = 4, pl_bytes = Bytes [1, 2, 3, 4]\<rparr>)]
   \<and> SetRaw True True 0 malloc_succeeds (store_with Map.empty) (bus_with [] 1) 5
        (Some [1, 2, 3, 4, 5]) 5 = (store_with Map.empty, bus_with [] 1, [], [])"
  using oversize_asymmetry[where bus = "bus_with [entry 1 7 10 Immediate 0 0, entry 2 7 11 LvglAsync 0 0] 3"
      and sz = 6 and took = True and now = 9 and ok = malloc_succeeds and topic = 7
      and dat = "Some [1, 2, 3, 4, 5, 6]"]
    oversize_asymmetry[where store = "store_with Map.empty" and sz' = 5 and stook = True
      and btook = True and now = 0 and ok = malloc_succeeds and bus = "bus_with [] 1" and key = 5
      and dat' = "Some [1, 2, 3, 4, 5]"]
  by (simp add: ex_defs Publish_def SetRaw_def caller_ptr_def)

subsection \<open>C5: exact topic match\<close>

text \<open>
  C5. Every dispatch of \<^verbatim>\<open>Publish(topic, \<dots>)\<close> carries the published topic and goes to the
  snapshot of a registered entry whose stored topic equals it; an entry registered on
  another topic is left unchanged and nothing is dispatched to it. On an initialised bus
  whose lock is taken, every unthrottled \<^verbatim>\<open>Immediate\<close> entry on the topic is dispatched to.
\<close>

theorem Publish_exact_topic:
  assumes P: "Publish took now ok bus topic dat sz = (bus', delivered)"
  shows "(\<forall>(s', d) \<in> set delivered.
            sub_topic s' = topic \<and> dispatch_topic d = topic
            \<and> (\<exists>s \<in> set (subscribers bus). sub_topic s = topic \<and> s' = s\<lparr>last_delivery_tick := now\<rparr>))
    \<and> (\<forall>i < length (subscribers bus). sub_topic (subscribers bus ! i) \<noteq> topic \<longrightarrow>
          subscribers bus' ! i = subscribers bus ! i
          \<and> (\<forall>(s', d) \<in> set delivered. s' \<noteq> (subscribers bus ! i)\<lparr>last_delivery_tick := now\<rparr>))
    \<and> (bus_initialized bus \<and> took \<longrightarrow>
          (\<forall>s \<in> set (subscribers bus).
             sub_topic s = topic \<and> min_interval_ticks s = 0 \<and> sub_mode s = Immediate \<longrightarrow>
             s\<lparr>last_delivery_tick := now\<rparr> \<in> fst ` set delivered))"
    (is "?A \<and> ?B \<and> ?C")
proof -
  have origin: "sub_topic s' = topic \<and> dispatch_topic d = topic
            \<and> (\<exists>s \<in> set (subscribers bus). sub_topic s = topic \<and> s' = s\<lparr>last_delivery_tick := now\<rparr>)"
    if sd: "(s', d) \<in> set delivered" for s' d
  proof -
    from Publish_delivered_origin[OF P sd] obtain s where
      s: "s \<in> set (subscribers bus)" "s' = s\<lparr>last_delivery_tick := now\<rparr>" "sub_topic s = topic"
      by blast
    moreover have "dispatch_topic d = topic"
      using P sd by (auto simp: Publish_eq split: if_splits dest: deliver_header)
    ultimately show ?thesis by auto
  qed
  then have A: ?A by blast
  have B: ?B
  proof (intro allI impI)
    fix i assume i: "i < length (subscribers bus)" and ne: "sub_topic (subscribers bus ! i) \<noteq> topic"
    have "subscribers bus' ! i = subscribers bus ! i"
      using Publish_registry_nth[OF P i] ne by (simp add: fires_iff)
    moreover have "s' \<noteq> (subscribers bus ! i)\<lparr>last_delivery_tick := now\<rparr>"
      if "(s', d) \<in> set delivered" for s' d
      using origin[OF that] ne by auto
    ultimately show "subscribers bus' ! i = subscribers bus ! i
          \<and> (\<forall>(s', d) \<in> set delivered. s' \<noteq> (subscribers bus ! i)\<lparr>last_delivery_tick := now\<rparr>)"
      by blast
  qed
  have C: ?C
  proof (intro impI ballI)
    fix s assume it: "bus_initialized bus \<and> took" and s: "s \<in> set (subscribers bus)"
      and "sub_topic s = topic \<and> min_interval_ticks s = 0 \<and> sub_mode s = Immediate"
    then have "touch now s \<in> set (map (touch now) (filter (fires topic now) (subscribers bus)))"
      and "sub_mode (touch now s) = Immediate"
      by (auto simp: fires_def touch_def)
    from deliver_immediate[OF this, of topic dat "clip bus sz" now ok 0]
    show "s\<lparr>last_delivery_tick := now\<rparr> \<in> fst ` set delivered"
      using P it by (force simp: Publish_eq touch_def)
  qed
  from A B C show ?thesis by blast
qed

text \<open>Topics 7, 8 and 7 are registered; a publish on 7 reaches the first and the third.\<close>

theorem Publish_exact_topic_witness:
  "Publish True 9 malloc_succeeds
       (bus_with [entry 1 7 10 Immediate 0 0, entry 2 8 11 Immediate 0 0, entry 3 7 12 LvglAsync 0 0] 4)
       7 (Some [1, 2]) 2
     = (bus_with [entry 1 7 10 Immediate 0 9, entry 2 8 11 Immediate 0 0, entry 3 7 12 LvglAsync 0 9] 4,
        [(entry 1 7 10 Immediate 0 9,
          Immediate_call \<lparr>msg_topic = 7, msg_data = Bytes [1, 2], msg_data_size = 2,
                           msg_timestamp = 9\<rparr>),
         (entry 3 7 12 LvglAsync 0 9,
          Lv_async_call \<lparr>pl_callback = Some (UserFn 12), pl_topic = 7, pl_timestamp = 9,
                          pl_data_size = 2, pl_bytes = Bytes [1, 2]\<rparr>)])"
  using Publish_exact_topic[of True 9 malloc_succeeds
      "bus_with [entry 1 7 10 Immediate 0 0, entry 2 8 11 Immediate 0 0, entry 3 7 12 LvglAsync 0 0] 4"
      7 "Some [1, 2]" 2
      "bus_with [entry 1 7 10 Immediate 0 9, entry 2 8 11 Immediate 0 0, entry 3 7 12 LvglAsync 0 9] 4"
      "[(entry 1 7 10 Immediate 0 9,
          Immediate_call \<lparr>msg_topic = 7, msg_data = Bytes [1, 2], msg_data_size = 2,
                           msg_timestamp = 9\<rparr>),
         (entry 3 7 12 LvglAsync 0 9,
          Lv_async_call \<lparr>pl_callback = Some (UserFn 12), pl_topic = 7, pl_timestamp = 9,
                          pl_data_size = 2, pl_bytes = Bytes [1, 2]\<rparr>)]"]
  by (simp add: ex_defs Publish_def caller_ptr_def)

subsection \<open>C6: the contract of GetRaw\<close>

text \<open>
  C6. On a store that satisfies its invariant, \<^verbatim>\<open>GetRaw\<close> returns true if and only if the
  store's lock was taken, the output pointer is not null, the key exists and the stored
  value has exactly the requested size; it then overwrites the first \<open>sz\<close> bytes of the
  output buffer with the stored bytes. Whenever \<^verbatim>\<open>GetRaw\<close> returns false, for any
  arguments and any store, the output is as it was.
\<close>

theorem GetRaw_contract:
  assumes "store_inv store"
  shows "(fst (GetRaw took store key out sz) \<longleftrightarrow>
            took \<and> (\<exists>buf. out = Some buf) \<and> (\<exists>v. entries store key = Some v \<and> length v = sz))
       \<and> (\<forall>buf v. took \<and> out = Some buf \<and> entries store key = Some v \<and> length v = sz \<longrightarrow>
            snd (GetRaw took store key out sz) = Some (v @ drop sz buf))
       \<and> (\<not> fst (GetRaw took' store' key' out' sz') \<longrightarrow>
            snd (GetRaw took' store' key' out' sz') = out')"
  using assms
  by (auto simp: GetRaw_def store_inv_def split: option.splits)

text \<open>
  Key 5 holds two bytes: reading two bytes succeeds, reading three fails, and so does
  reading key 6 or reading from a store that was never initialised; the failed reads
  leave the buffer alone.
\<close>

theorem GetRaw_contract_witness:
  "store_inv (store_with [5 \<mapsto> [1, 2]])
   \<and> GetRaw True (store_with [5 \<mapsto> [1, 2]]) 5 (Some [9, 9, 9]) 2 = (True, Some [1, 2, 9])
   \<and> GetRaw True (store_with [5 \<mapsto> [1, 2]]) 5 (Some [9, 9, 9]) 3 = (False, Some [9, 9, 9])
   \<and> GetRaw True (store_with [5 \<mapsto> [1, 2]]) 6 (Some [9, 9, 9]) 2 = (False, Some [9, 9, 9])
   \<and> GetRaw True new_DataStore 5 (Some [9, 9, 9]) 0 = (False, Some [9, 9, 9])"
proof -
  have inv: "store_inv (store_with [5 \<mapsto> [1, 2]])"
    by (simp add: store_inv_def store_with_def)
  from GetRaw_contract[OF inv, of True 5 "Some [9, 9, 9]" 2]
    GetRaw_contract[OF inv, of True 5 "Some [9, 9, 9]" 3]
    GetRaw_contract[OF inv, of True 6 "Some [9, 9, 9]" 2]
    GetRaw_contract[OF store_inv_new, of True 5 "Some [9, 9, 9]" 0]
  show ?thesis using inv
    by (simp add: store_with_def GetRaw_def new_DataStore_def)
qed

text \<open>
  The lock is needed: when \<^verbatim>\<open>xSemaphoreTake\<close> times out, \<^verbatim>\<open>GetRaw\<close> returns false although
  key 5 exists and holds exactly the two bytes asked for.
\<close>

theorem GetRaw_lock_timeout_counterexample:
  "entries (store_with [5 \<mapsto> [1, 2]]) 5 = Some [1, 2]
   \<and> length [1 :: u8, 2] = 2
   \<and> GetRaw False (store_with [5 \<mapsto> [1, 2]]) 5 (Some [9, 9, 9]) 2 = (False, Some [9, 9, 9])"
  by (simp add: GetRaw_def store_with_def)

subsection \<open>C7: subscription ids\<close>

text \<open>
  C7. In every run of operations on a freshly initialised bus, the ids returned by the
  successful \<^verbatim>\<open>Subscribe\<close> calls are never \<^verbatim>\<open>kInvalidSubscription\<close>; the \<open>n\<close>-th of them
  (from 0) is \<open>1 + n mod (2\<^sup>3\<^sup>2 - 1)\<close>, so the first \<open>2\<^sup>3\<^sup>2 - 1\<close> are \<open>1, 2, 3, \<dots>\<close>,
  increasing and pairwise distinct; the counter afterwards is \<open>1 + k mod (2\<^sup>3\<^sup>2 - 1)\<close> for
  \<open>k\<close> ids issued. One successful \<^verbatim>\<open>Subscribe\<close> returns the counter and moves it on by
  one, from \<open>0xFFFFFFFF\<close> to 1.
\<close>

theorem Subscribe_ids:
  assumes ids: "ids = issued tk (snd (Initialize True new_MessageBus cfg)) ops"
  shows "kInvalidSubscription \<notin> set ids
    \<and> (\<forall>n < length ids. unat (ids ! n) = 1 + n mod (2 ^ 32 - 1))
    \<and> (length ids \<le> 2 ^ 32 - 1 \<longrightarrow> distinct ids \<and> (\<forall>n < length ids. unat (ids ! n) = n + 1))
    \<and> unat (next_id (fst (run tk (snd (Initialize True new_MessageBus cfg)) ops)))
        = 1 + length ids mod (2 ^ 32 - 1)
    \<and> (\<forall>bus topic cb mode ms. bus_initialized bus \<and> cb \<noteq> None \<longrightarrow>
          fst (Subscribe tk True bus topic cb mode ms) = next_id bus
          \<and> next_id (snd (Subscribe tk True bus topic cb mode ms))
              = (if next_id bus = 0xFFFFFFFF then 1 else next_id bus + 1))"
proof -
  let ?b = "snd (Initialize True new_MessageBus cfg)"
  from issued_counter[OF counter_at_fresh, of tk cfg ops]
  have eq: "ids = map nth_id [0..<length ids]"
    and cnt: "counter_at (fst (run tk ?b ops)) (length ids)"
    using ids by simp_all
  have nth: "ids ! n = nth_id n" if "n < length ids" for n
    using that by (subst eq) simp
  have a: "kInvalidSubscription \<notin> set ids"
  proof
    assume "kInvalidSubscription \<in> set ids"
    then obtain n where "n < length ids" "ids ! n = 0"
      by (auto simp: in_set_conv_nth kInvalidSubscription_def)
    with nth nth_id_nonzero show False by metis
  qed
  have b: "\<forall>n < length ids. unat (ids ! n) = 1 + n mod (2 ^ 32 - 1)"
    using nth unat_nth_id by (simp add: cycle_def)
  have c: "distinct ids \<and> (\<forall>n < length ids. unat (ids ! n) = n + 1)"
    if le: "length ids \<le> 2 ^ 32 - 1"
  proof
    have "inj_on nth_id (set [0..<length ids])"
      using le by (intro inj_onI nth_id_inj) (auto simp: cycle_def)
    then have "distinct (map nth_id [0..<length ids])"
      by (simp add: distinct_map)
    with eq show "distinct ids" by simp
    show "\<forall>n < length ids. unat (ids ! n) = n + 1"
      using b le by auto
  qed
  have d: "unat (next_id (fst (run tk ?b ops))) = 1 + length ids mod (2 ^ 32 - 1)"
    using cnt unat_nth_id[of "length ids"] by (simp add: counter_at_def cycle_def)
  have e: "fst (Subscribe tk True bus topic cb mode ms) = next_id bus
          \<and> next_id (snd (Subscribe tk True bus topic cb mode ms))
              = (if next_id bus = 0xFFFFFFFF then 1 else next_id bus + 1)"
    if "bus_initialized bus \<and> cb \<noteq> None" for bus topic cb mode ms
  proof -
    have "next_id bus + 1 = 0 \<longleftrightarrow> next_id bus = 0xFFFFFFFF"
      by (rule wrap_iff)
    with that show ?thesis
      by (auto simp: Subscribe_def Let_def kInvalidSubscription_def)
  qed
  from a b c d e show ?thesis by blast
qed

text \<open>
  Three of five \<^verbatim>\<open>Subscribe\<close> calls succeed and get 1, 2, 3; the one that finds the lock
  taken and the one without a callback get 0. At \<open>0xFFFFFFFF\<close> the counter goes on to 1.
\<close>

theorem Subscribe_ids_witness:
  "issued ticks_1kHz (snd (Initialize True new_MessageBus default_BusConfig))
      [Op_Subscribe True 7 (Some (UserFn 10)) Immediate 0,
       Op_Subscribe False 7 (Some (UserFn 11)) Immediate 0,
       Op_Subscribe True 8 None Immediate 0,
       Op_Subscribe True 8 (Some (UserFn 12)) LvglAsync 0,
       Op_Unsubscribe True 1,
       Op_Subscribe True 9 (Some (UserFn 13)) LvglAsync 5] = [1, 2, 3]
   \<and> fst (snd (run ticks_1kHz (snd (Initialize True new_MessageBus default_BusConfig))
      [Op_Subscribe True 7 (Some (UserFn 10)) Immediate 0,
       Op_Subscribe False 7 (Some (UserFn 11)) Immediate 0,
       Op_Subscribe True 8 None Immediate 0,
       Op_Subscribe True 8 (Some (UserFn 12)) LvglAsync 0,
       Op_Unsubscribe True 1,
       Op_Subscribe True 9 (Some (UserFn 13)) LvglAsync 5])) = [1, 0, 0, 2, 3]
   \<and> Subscribe ticks_1kHz True (bus_with [] 0xFFFFFFFF) 7 (Some (UserFn 10)) Immediate 0
       = (0xFFFFFFFF, bus_with [entry 0xFFFFFFFF 7 10 Immediate 0 0] 1)"
  using Subscribe_ids[of "[1, 2, 3]" ticks_1kHz default_BusConfig
      "[Op_Subscribe True 7 (Some (UserFn 10)) Immediate 0,
       Op_Subscribe False 7 (Some (UserFn 11)) Immediate 0,
       Op_Subscribe True 8 None Immediate 0,
       Op_Subscribe True 8 (Some (UserFn 12)) LvglAsync 0,
       Op_Unsubscribe True 1,
       Op_Subscribe True 9 (Some (UserFn 13)) LvglAsync 5]"]
  by (simp add: ex_defs Initialize_def new_MessageBus_def Subscribe_def Unsubscribe_def Let_def
      kInvalidSubscription_def)

subsection \<open>C8: a failed allocation in the delivery loop\<close>

text \<open>
  C8. Let \<^verbatim>\<open>Publish\<close> run on an initialised bus with the lock taken, and let \<open>s\<close> be a
  \<^verbatim>\<open>LvglAsync\<close> entry of the snapshot whose \<^verbatim>\<open>malloc\<close> fails. The registry is the one the
  snapshot loop left, whatever the allocator does; \<open>s\<close> is registered with
  \<open>last_delivery_tick = now\<close>; the dispatches are those of the matches before \<open>s\<close> followed
  by those of the matches after it, all of them if no other allocation fails; and a later
  \<^verbatim>\<open>Publish\<close> on the topic within \<open>min_interval_ticks\<close> of \<open>now\<close> keeps \<open>s\<close> as it is.
\<close>

theorem Publish_alloc_failure:
  assumes init: "bus_initialized bus" and took: "took"
    and P: "Publish took now ok bus topic dat sz = (bus', delivered)"
    and ms: "snd (snapshot topic now (subscribers bus)) = pre @ s # post"
    and async: "sub_mode s = LvglAsync"
    and fail: "\<not> ok (async_count pre)"
  shows "subscribers bus' = fst (snapshot topic now (subscribers bus))
    \<and> (\<forall>ok'. fst (Publish took now ok' bus topic dat sz) = bus')
    \<and> s \<in> set (subscribers bus') \<and> last_delivery_tick s = now
    \<and> delivered =
        deliver ok 0 topic dat (if sz > max_data_size (bus_config bus)
                                then max_data_size (bus_config bus) else sz) now pre
        @ deliver ok (Suc (async_count pre)) topic dat
            (if sz > max_data_size (bus_config bus) then max_data_size (bus_config bus) else sz)
            now post
    \<and> ((\<forall>k. k \<noteq> async_count pre \<longrightarrow> ok k) \<longrightarrow> map fst delivered = pre @ post)
    \<and> (\<forall>took2 now2 ok2 dat2 sz2.
          0 < min_interval_ticks s \<and> now2 - now < min_interval_ticks s \<longrightarrow>
          s \<in> set (subscribers (fst (Publish took2 now2 ok2 bus' topic dat2 sz2))))"
    (is "?A \<and> ?B \<and> ?C \<and> ?D \<and> ?E \<and> ?F \<and> ?G")
proof -
  have A: ?A using P init took by (auto simp: Publish_def Let_def split: prod.splits)
  have B: ?B using P Publish_fst_malloc[of took now _ bus topic dat sz ok] by (metis fst_conv)
  have smem: "s \<in> set (map (touch now) (filter (fires topic now) (subscribers bus)))"
    using ms by (simp add: snapshot_snd)
  then have D: ?D by (auto simp: touch_def)
  from smem have C: ?C
    using A by (auto simp: snapshot_fst)
  have E: ?E
    using P init took ms async fail
    by (auto simp: Publish_def Let_def deliver_append split: prod.splits)
  have F: ?F
  proof
    assume others: "\<forall>k. k \<noteq> async_count pre \<longrightarrow> ok k"
    have "map fst (deliver ok 0 topic dat (clip bus sz) now pre) = pre"
      by (rule deliver_all_ok) (use others in auto)
    moreover have "map fst (deliver ok (Suc (async_count pre)) topic dat (clip bus sz) now post) = post"
      by (rule deliver_all_ok) (use others in auto)
    ultimately show "map fst delivered = pre @ post"
      using E by (simp add: clip_def)
  qed
  have G: ?G
  proof (intro allI impI)
    fix took2 now2 ok2 dat2 sz2
    assume thr: "0 < min_interval_ticks s \<and> now2 - now < min_interval_ticks s"
    with D have "\<not> fires topic now2 s" by (simp add: fires_def)
    with C show "s \<in> set (subscribers (fst (Publish took2 now2 ok2 bus' topic dat2 sz2)))"
      by (force simp: Publish_eq)
  qed
  from A B C D E F G show ?thesis by blast
qed

text \<open>
  Three subscribers match at tick 200 and the first allocation fails: the first one, with
  an interval of 100 ticks, gets nothing, the other two are served, and at tick 250 the
  first one is still waiting with its tick at 200.
\<close>

theorem Publish_alloc_failure_witness:
  "Publish True 200 first_malloc_fails
       (bus_with [entry 1 7 10 LvglAsync 100 0, entry 2 7 11 LvglAsync 0 0, entry 3 7 12 Immediate 0 0] 4)
       7 None 0
     = (bus_with [entry 1 7 10 LvglAsync 100 200, entry 2 7 11 LvglAsync 0 200, entry 3 7 12 Immediate 0 200] 4,
        [(entry 2 7 11 LvglAsync 0 200,
          Lv_async_call \<lparr>pl_callback = Some (UserFn 11), pl_topic = 7, pl_timestamp = 200,
                          pl_data_size = 0, pl_bytes = Unwritten\<rparr>),
         (entry 3 7 12 Immediate 0 200,
          Immediate_call \<lparr>msg_topic = 7, msg_data = Nullptr, msg_data_size = 0,
                           msg_timestamp = 200\<rparr>)])
   \<and> entry 1 7 10 LvglAsync 100 200 \<in> set (subscribers (fst (Publish True 250 malloc_succeeds
         (bus_with [entry 1 7 10 LvglAsync 100 200, entry 2 7 11 LvglAsync 0 200, entry 3 7 12 Immediate 0 200] 4)
         7 None 0)))"
proof -
  let ?bus = "bus_with [entry 1 7 10 LvglAsync 100 0, entry 2 7 11 LvglAsync 0 0, entry 3 7 12 Immediate 0 0] 4"
  let ?bus' = "bus_with [entry 1 7 10 LvglAsync 100 200, entry 2 7 11 LvglAsync 0 200, entry 3 7 12 Immediate 0 200] 4"
  let ?del = "[(entry 2 7 11 LvglAsync 0 200,
          Lv_async_call \<lparr>pl_callback = Some (UserFn 11), pl_topic = 7, pl_timestamp = 200,
                          pl_data_size = 0, pl_bytes = Unwritten\<rparr>),
         (entry 3 7 12 Immediate 0 200,
          Immediate_call \<lparr>msg_topic = 7, msg_data = Nullptr, msg_data_size = 0,
                           msg_timestamp = 200\<rparr>)]"
  have i: "bus_initialized ?bus" by (simp add: ex_defs)
  have P: "Publish True 200 first_malloc_fails ?bus 7 None 0 = (?bus', ?del)"
    by (simp add: ex_defs Publish_def caller_ptr_def)
  have ms: "snd (snapshot 7 200 (subscribers ?bus))
              = [] @ entry 1 7 10 LvglAsync 100 200 # [entry 2 7 11 LvglAsync 0 200, entry 3 7 12 Immediate 0 200]"
    by (simp add: ex_defs)
  have a: "sub_mode (entry 1 7 10 LvglAsync 100 200) = LvglAsync" by (simp add: ex_defs)
  have f: "\<not> first_malloc_fails (async_count [])" by (simp add: ex_defs async_count_def)
  from Publish_alloc_failure[OF i TrueI P ms a f]
  have "entry 1 7 10 LvglAsync 100 200 \<in> set (subscribers (fst (Publish True 250 malloc_succeeds ?bus' 7 None 0)))"
    by (simp add: entry_def)
  with P show ?thesis by simp
qed

subsection \<open>C9: Unwatch\<close>

text \<open>
  C9. \<^verbatim>\<open>Unwatch\<close> does to the bus what \<^verbatim>\<open>Unsubscribe\<close> does and leaves the store alone,
  for every store, initialised or not; with \<^verbatim>\<open>kInvalidSubscription\<close> it changes nothing.
\<close>

theorem Unwatch_forwards:
  "Unwatch btook store bus ident = (store, Unsubscribe btook bus ident)
   \<and> Unwatch btook (store\<lparr>ds_initialized := False\<rparr>) bus ident
       = (store\<lparr>ds_initialized := False\<rparr>, Unsubscribe btook bus ident)
   \<and> Unwatch btook store bus kInvalidSubscription = (store, bus)"
  by (simp add: Unwatch_def Unsubscribe_def)

text \<open>On a store that was never initialised, \<^verbatim>\<open>Unwatch(1)\<close> removes subscription 1.\<close>

theorem Unwatch_forwards_witness:
  "Unwatch True new_DataStore (bus_with [entry 1 7 10 Immediate 0 0] 2) 1
     = (new_DataStore, bus_with [] 2)
   \<and> Unwatch True new_DataStore (bus_with [entry 1 7 10 Immediate 0 0] 2) kInvalidSubscription
     = (new_DataStore, bus_with [entry 1 7 10 Immediate 0 0] 2)"
  using Unwatch_forwards[of True new_DataStore "bus_with [entry 1 7 10 Immediate 0 0] 2" 1]
  by (simp add: Unsubscribe_def Unwatch_def ex_defs kInvalidSubscription_def)

subsection \<open>C10: the guards of GetRaw\<close>

text \<open>
  C10. When the store is not initialised, the output pointer is null or the requested
  size is 0, \<^verbatim>\<open>GetRaw\<close> returns false and the output is as it was, whatever the store
  holds and whether or not its lock could be taken.
\<close>

theorem GetRaw_guards:
  assumes "\<not> ds_initialized store \<or> out = None \<or> sz = 0"
  shows "GetRaw took (store\<lparr>entries := es\<rparr>) key out sz = (False, out)"
  using assms by (auto simp: GetRaw_def split: option.splits)

text \<open>A null pointer, a size of 0, and a store that is not initialised.\<close>

theorem GetRaw_guards_witness:
  "GetRaw True (store_with [5 \<mapsto> [1, 2]]) 5 None 2 = (False, None)
   \<and> GetRaw True (store_with [5 \<mapsto> [1, 2]]) 5 (Some [9, 9]) 0 = (False, Some [9, 9])
   \<and> GetRaw True (new_DataStore\<lparr>entries := [5 \<mapsto> [1, 2]]\<rparr>) 5 (Some [9, 9]) 2 = (False, Some [9, 9])"
  using GetRaw_guards[of "store_with Map.empty" None 2 True "[5 \<mapsto> [1, 2]]" 5]
    GetRaw_guards[of "store_with Map.empty" "Some [9, 9]" 0 True "[5 \<mapsto> [1, 2]]" 5]
    GetRaw_guards[of new_DataStore "Some [9, 9]" 2 True "[5 \<mapsto> [1, 2]]" 5]
  by (simp add: store_with_def new_DataStore_def)

end
